theory Spec2Isabelle
  imports Main "HOL-Library.Sublist" "HOL-Library.Word"
begin

section \<open>Strings\<close>

text \<open>
  A JavaScript string is modelled by the list of its code units. The embedding uses
  \<^typ>\<open>string\<close>, so it covers the strings whose code units are below 256 (ASCII and
  Latin-1); \<open>length\<close> is the raw character count of \<^verbatim>\<open>.length\<close>.
\<close>

text \<open>\<^verbatim>\<open>s.split(c)\<close> for a one-character separator: never the empty array.\<close>

fun split_on :: "char \<Rightarrow> string \<Rightarrow> string list" where
  "split_on c [] = [[]]"
| "split_on c (x # xs) =
     (if x = c then [] # split_on c xs
      else (case split_on c xs of [] \<Rightarrow> [[x]] | w # ws \<Rightarrow> (x # w) # ws))"

text \<open>\<^verbatim>\<open>xs.join(sep)\<close>.\<close>

fun join_with :: "string \<Rightarrow> string list \<Rightarrow> string" where
  "join_with sep [] = []"
| "join_with sep [x] = x"
| "join_with sep (x # y # ys) = x @ sep @ join_with sep (y # ys)"

text \<open>\<^verbatim>\<open>s.startsWith(p)\<close>, \<^verbatim>\<open>s.endsWith(p)\<close> and \<^verbatim>\<open>s.includes(p)\<close>.\<close>

fun startsWith :: "string \<Rightarrow> string \<Rightarrow> bool" where
  "startsWith s [] = True"
| "startsWith [] (p # ps) = False"
| "startsWith (x # xs) (p # ps) = (x = p \<and> startsWith xs ps)"

definition endsWith :: "string \<Rightarrow> string \<Rightarrow> bool" where
  "endsWith s p = startsWith (rev s) (rev p)"

fun str_includes :: "string \<Rightarrow> string \<Rightarrow> bool" where
  "str_includes [] p = (p = [])"
| "str_includes (x # xs) p = (startsWith (x # xs) p \<or> str_includes xs p)"

text \<open>\<^verbatim>\<open>s.substring(0, n)\<close> for an integer \<open>n\<close>: a negative end counts as 0.\<close>

definition substring0 :: "string \<Rightarrow> int \<Rightarrow> string" where
  "substring0 s n = take (nat n) s"

text \<open>Character classes of the regular expressions (without the \<^verbatim>\<open>u\<close> and \<^verbatim>\<open>i\<close> flags).\<close>

definition is_digit :: "char \<Rightarrow> bool" where
  "is_digit c = (48 \<le> (of_char c :: nat) \<and> (of_char c :: nat) \<le> 57)"

definition is_upper :: "char \<Rightarrow> bool" where
  "is_upper c = (65 \<le> (of_char c :: nat) \<and> (of_char c :: nat) \<le> 90)"

definition is_lower :: "char \<Rightarrow> bool" where
  "is_lower c = (97 \<le> (of_char c :: nat) \<and> (of_char c :: nat) \<le> 122)"

definition is_word_char :: "char \<Rightarrow> bool" where
  "is_word_char c = (is_digit c \<or> is_upper c \<or> is_lower c \<or> c = CHR ''_'')"

text \<open>
  \<^verbatim>\<open>\s\<close>: tab, line feed, vertical tab, form feed, carriage return, space and the
  no-break space (the white space and line terminators below 256).
\<close>

definition is_space :: "char \<Rightarrow> bool" where
  "is_space c = ((of_char c :: nat) \<in> {9, 10, 11, 12, 13, 32, 160})"

text \<open>
  \<^verbatim>\<open>toUpperCase\<close> on one code unit: a to z, and the Latin-1 letters that have an upper
  case below 256. The sharp s becomes SS. The micro sign and y with diaeresis, whose
  upper case is above 255, are kept: the program only compares the result with ASCII
  names, and neither form is ASCII.
\<close>

definition upper_unit :: "char \<Rightarrow> string" where
  "upper_unit c =
     (let n = (of_char c :: nat) in
      if is_lower c then [char_of (n - 32)]
      else if n = 223 then ''SS''
      else if 224 \<le> n \<and> n \<le> 254 \<and> n \<noteq> 247 then [char_of (n - 32)]
      else [c])"

definition toUpperCase :: "string \<Rightarrow> string" where
  "toUpperCase s = concat (map upper_unit s)"

section \<open>The path module (POSIX)\<close>

text \<open>
  The script runs under Node on a POSIX system (\<^verbatim>\<open>#!/usr/bin/env node\<close>), so
  \<^verbatim>\<open>path\<close> is \<^verbatim>\<open>path.posix\<close>: the only separator is the forward slash. The functions
  are modelled on path components, as Node documents them.
\<close>

definition slash :: char where
  "slash = CHR ''/''"

text \<open>The last portion of a path: its last non-empty component, trailing slashes ignored.\<close>

definition last_portion :: "string \<Rightarrow> string" where
  "last_portion p =
     (case filter (\<lambda>c. c \<noteq> []) (split_on slash p) of
        [] \<Rightarrow> []
      | c # cs \<Rightarrow> last (c # cs))"

text \<open>
  \<^verbatim>\<open>path.extname(p)\<close>: from the last dot of the last portion to its end; empty when
  there is no dot, when the only dot is the first character of the portion, and for
  the portion \<^verbatim>\<open>..\<close>.
\<close>

definition after_last_dot :: "string \<Rightarrow> string" where
  "after_last_dot b = rev (takeWhile (\<lambda>c. c \<noteq> CHR ''.'') (rev b))"

definition extname :: "string \<Rightarrow> string" where
  "extname p =
     (let b = last_portion p; e = after_last_dot b in
      if CHR ''.'' \<notin> set b \<or> length e + 1 = length b \<or> b = ''..'' then []
      else CHR ''.'' # e)"

text \<open>
  \<^verbatim>\<open>path.basename(p, suffix)\<close>: the last portion, without the suffix when the portion
  ends with it and is longer; a suffix that is empty or longer than the path is
  not looked at, and a suffix equal to the whole path gives the empty string.
\<close>

definition basename :: "string \<Rightarrow> string \<Rightarrow> string" where
  "basename p sfx =
     (let b = last_portion p in
      if sfx \<noteq> [] \<and> length sfx \<le> length p then
        (if sfx = p then []
         else if endsWith b sfx \<and> length sfx < length b
              then take (length b - length sfx) b
         else b)
      else b)"

section \<open>The Sanitizer and the Filename Deriver\<close>

definition MAX_FILENAME_LENGTH :: nat where
  "MAX_FILENAME_LENGTH = 200"

definition reservedNames :: "string list" where
  "reservedNames =
     [''CON'', ''PRN'', ''AUX'', ''NUL'', ''COM1'', ''COM2'', ''COM3'', ''COM4'',
      ''COM5'', ''COM6'', ''COM7'', ''COM8'', ''COM9'', ''LPT1'', ''LPT2'', ''LPT3'',
      ''LPT4'', ''LPT5'', ''LPT6'', ''LPT7'', ''LPT8'', ''LPT9'']"

text \<open>
  The class \<^verbatim>\<open>[<>:"/\\|?*\x00-\x1f]\<close>; the double quote is code unit 34 and the
  backslash 92.
\<close>

definition invalid_char :: "char \<Rightarrow> bool" where
  "invalid_char c =
     (c \<in> {CHR ''<'', CHR ''>'', CHR '':'', CHR 0x22, CHR ''/'', CHR 0x5C, CHR ''|'',
            CHR ''?'', CHR ''*''}
      \<or> (of_char c :: nat) \<le> 31)"

definition replace_invalid :: "string \<Rightarrow> string" where
  "replace_invalid s = map (\<lambda>c. if invalid_char c then CHR ''_'' else c) s"

text \<open>
  \<^verbatim>\<open>replace(/^[\s.]+|[\s.]+$/g, '')\<close>: the leading run and the trailing run of dots and
  white space are removed.
\<close>

definition trim_char :: "char \<Rightarrow> bool" where
  "trim_char c = (is_space c \<or> c = CHR ''.'')"

definition trim_dots_spaces :: "string \<Rightarrow> string" where
  "trim_dots_spaces s = rev (dropWhile trim_char (rev (dropWhile trim_char s)))"

definition sanitizeFilename :: "string \<Rightarrow> string" where
  "sanitizeFilename filename0 =
     (let filename1 = replace_invalid filename0;
          filename2 = trim_dots_spaces filename1;
          nameWithoutExt = toUpperCase (hd (split_on CHR ''.'' filename2));
          filename3 = (if nameWithoutExt \<in> set reservedNames
                       then CHR ''_'' # filename2 else filename2);
          filename4 =
            (if length filename3 > MAX_FILENAME_LENGTH then
               (let ext = extname filename3;
                    nameWithoutExt = basename filename3 ext
                in substring0 nameWithoutExt
                     (int MAX_FILENAME_LENGTH - int (length ext)) @ ext)
             else filename3)
      in if filename4 = [] then ''file'' else filename4)"

definition getFilenameFromUrl :: "string \<Rightarrow> string" where
  "getFilenameFromUrl url =
     (let seg = last (split_on slash url);
          filename0 = (if seg = [] then ''file'' else seg);
          filename1 = (if \<not> str_includes filename0 ''.'' then filename0 @ ''.bin''
                       else filename0)
      in sanitizeFilename filename1)"

section \<open>The URL Extractor\<close>

text \<open>
  The regular expressions of \<^verbatim>\<open>extractFileUrls\<close> are sequences of literals and of
  character classes under \<^verbatim>\<open>+\<close> or \<^verbatim>\<open>*\<close>. A greedy quantifier takes the longest run
  first and gives characters back one at a time, as the backtracking matcher does.
\<close>

datatype rx = Lit string | Plus "char \<Rightarrow> bool" | Star "char \<Rightarrow> bool"

fun first_some :: "('a \<Rightarrow> 'b option) \<Rightarrow> 'a list \<Rightarrow> 'b option" where
  "first_some f [] = None"
| "first_some f (x # xs) = (case f x of Some y \<Rightarrow> Some y | None \<Rightarrow> first_some f xs)"

text \<open>
  The match of a pattern at the start of \<open>s\<close>: the text each item of the pattern
  matched, in order, or \<open>None\<close>.
\<close>

fun match_here :: "rx list \<Rightarrow> string \<Rightarrow> string list option" where
  "match_here [] s = Some []"
| "match_here (Lit l # rest) s =
     (if startsWith s l then map_option (Cons l) (match_here rest (drop (length l) s))
      else None)"
| "match_here (Plus cls # rest) s =
     first_some (\<lambda>k. map_option (Cons (take k s)) (match_here rest (drop k s)))
       (rev [1..<Suc (length (takeWhile cls s))])"
| "match_here (Star cls # rest) s =
     first_some (\<lambda>k. map_option (Cons (take k s)) (match_here rest (drop k s)))
       (rev [0..<Suc (length (takeWhile cls s))])"

text \<open>
  The matches of a global (\<^verbatim>\<open>g\<close>) pattern, left to right: \<^verbatim>\<open>String.match\<close> and the
  \<^verbatim>\<open>exec\<close> loops both resume the search where the last match ended.
\<close>

function scan_all :: "rx list \<Rightarrow> string \<Rightarrow> string list list" where
  "scan_all p s =
     (case match_here p s of
        Some r \<Rightarrow>
          r # (if s = [] then [] else scan_all p (drop (max 1 (length (concat r))) s))
      | None \<Rightarrow> (case s of [] \<Rightarrow> [] | x # xs \<Rightarrow> scan_all p xs))"
  by pat_completeness auto
termination
  by (relation "measure (\<lambda>(p, s). length s)") auto

definition not_slash :: "char \<Rightarrow> bool" where
  "not_slash c = (c \<noteq> CHR ''/'')"

definition not_rbracket :: "char \<Rightarrow> bool" where
  "not_rbracket c = (c \<noteq> CHR '']'')"

definition not_rparen :: "char \<Rightarrow> bool" where
  "not_rparen c = (c \<noteq> CHR '')'')"

text \<open>The class \<^verbatim>\<open>[\w\-\.%]\<close>.\<close>

definition name_char :: "char \<Rightarrow> bool" where
  "name_char c = (is_word_char c \<or> c = CHR ''-'' \<or> c = CHR ''.'' \<or> c = CHR ''%'')"

definition assetPattern :: "rx list" where
  "assetPattern =
     [Lit ''https://github.com/'', Plus not_slash, Lit ''/'', Plus not_slash,
      Lit ''/assets/'', Plus is_digit, Lit ''/'', Plus name_char]"

definition attachmentPattern :: "rx list" where
  "attachmentPattern =
     [Lit ''https://github.com/user-attachments/files/'', Plus is_digit, Lit ''/'',
      Plus name_char]"

text \<open>
  The markdown patterns are a link head \<^verbatim>\<open>\[[^\]]*\]\(\<close>, the capture group and the
  closing parenthesis; \<open>group1\<close> reads the text of the group off a match.
\<close>

definition linkHead :: "rx list" where
  "linkHead = [Lit ''['', Star not_rbracket, Lit '']('']"

definition markdownAssetLinkPattern :: "rx list" where
  "markdownAssetLinkPattern = linkHead @ assetPattern @ [Lit '')'']"

definition markdownAttachmentLinkPattern :: "rx list" where
  "markdownAttachmentLinkPattern = linkHead @ attachmentPattern @ [Lit '')'']"

definition rawGroup :: "rx list" where
  "rawGroup = [Lit ''https://raw.githubusercontent.com/'', Plus not_rparen]"

definition markdownRawLinkPattern :: "rx list" where
  "markdownRawLinkPattern = linkHead @ rawGroup @ [Lit '')'']"

definition imgHead :: "rx list" where
  "imgHead = [Lit ''!['', Star not_rbracket, Lit '']('']"

definition imgGroup :: "rx list" where
  "imgGroup = [Lit ''https://'', Plus not_rparen]"

definition imgPattern :: "rx list" where
  "imgPattern = imgHead @ imgGroup @ [Lit '')'']"

definition group1 :: "rx list \<Rightarrow> rx list \<Rightarrow> string list \<Rightarrow> string" where
  "group1 head grp r = concat (take (length grp) (drop (length head) r))"

text \<open>\<^verbatim>\<open>urlSet.add(url)\<close>: a \<^verbatim>\<open>Set\<close> keeps its elements in insertion order.\<close>

definition set_add :: "string list \<Rightarrow> string \<Rightarrow> string list" where
  "set_add urlSet url = (if url \<in> set urlSet then urlSet else urlSet @ [url])"

definition extractFileUrls :: "string \<Rightarrow> string list" where
  "extractFileUrls commentBody =
     (let urlSet0 = [];
          assetMatches = map concat (scan_all assetPattern commentBody);
          urlSet1 = foldl set_add urlSet0 assetMatches;
          attachmentMatches = map concat (scan_all attachmentPattern commentBody);
          urlSet2 = foldl set_add urlSet1 attachmentMatches;
          urlSet3 = foldl set_add urlSet2
            (map (group1 linkHead assetPattern)
               (scan_all markdownAssetLinkPattern commentBody));
          urlSet4 = foldl set_add urlSet3
            (map (group1 linkHead attachmentPattern)
               (scan_all markdownAttachmentLinkPattern commentBody));
          urlSet5 = foldl set_add urlSet4
            (map (group1 linkHead rawGroup)
               (scan_all markdownRawLinkPattern commentBody));
          urlSet6 = foldl set_add urlSet5
            (filter (\<lambda>url. str_includes url ''user-images.githubusercontent.com''
                            \<or> str_includes url ''github.com'')
               (map (group1 imgHead imgGroup) (scan_all imgPattern commentBody)))
      in urlSet6)"

section \<open>The platform\<close>

text \<open>
  What the script takes from its platform is a parameter of the model: the URL parser
  behind \<^verbatim>\<open>new URL(s)\<close>, which gives the host name of a string or throws (\<open>None\<close>),
  and the network behind \<^verbatim>\<open>fetch\<close>. A request either fails at the network level or
  is answered with a status, an optional \<^verbatim>\<open>content-length\<close> header and a body, whose
  reading (\<^verbatim>\<open>arrayBuffer()\<close>) gives all of its bytes or fails. The extractor returns
  each URL once, so a run asks for each URL at most once, and the answer is a function
  of the URL and the token.

  The operations on the file system (\<^verbatim>\<open>fs.mkdir\<close>, \<^verbatim>\<open>fs.writeFile\<close>, \<^verbatim>\<open>fs.appendFile\<close>)
  can fail too: a directory that cannot be created, a name that is too long, a path
  that cannot be written. Whether an operation succeeds is the platform's answer,
  \<open>fs_succeeds\<close>, a function of the operation and its arguments. An operation that
  fails throws; the script catches none of these errors, so the run ends there, and
  the operation is no effect of the trace (whatever a failed recursive \<^verbatim>\<open>mkdir\<close> has
  created of the ancestors of its directory is not recorded). A run asks for each
  operation at most once: the directory and the manifest once, each output under its
  own name, each file under a path that did not exist before.
\<close>

type_synonym bytes = "8 word list"

text \<open>
  The effects of a run, in the order they happen. Console output is not an effect of
  the model.
\<close>

record FileMetadata =
  issue_number :: string
  comment_id :: string
  files :: "string list"
  timestamp :: string

datatype event =
    HttpGet string string
  | ReadBody string
  | Mkdir string
  | WriteFile string bytes
  | WriteMetadata string FileMetadata
  | AppendOutput string string string

datatype body_read = BodyFailed | BodyBytes bytes

record response =
  status_code :: nat
  content_length :: "string option"
  body :: body_read

datatype fetch_result = NetworkError | Responded response

record platform =
  url_hostname :: "string \<Rightarrow> string option"
  fetch :: "string \<Rightarrow> string \<Rightarrow> fetch_result"
  fs_succeeds :: "event \<Rightarrow> bool"

section \<open>The Domain Validator\<close>

definition isAllowedGithubDomain :: "(string \<Rightarrow> string option) \<Rightarrow> string \<Rightarrow> bool" where
  "isAllowedGithubDomain parse urlString =
     (case parse urlString of
        None \<Rightarrow> False
      | Some hostname \<Rightarrow>
          hostname = ''github.com'' \<or> hostname = ''githubusercontent.com''
          \<or> endsWith hostname ''.githubusercontent.com'')"

section \<open>The Secure Downloader\<close>

definition MAX_FILE_SIZE :: nat where
  "MAX_FILE_SIZE = 25 * 1024 * 1024"

text \<open>
  \<^verbatim>\<open>parseInt(s, 10)\<close>: leading white space, an optional sign, then the longest run of
  decimal digits; \<open>None\<close> is \<^verbatim>\<open>NaN\<close>. The value is exact here, where JavaScript
  rounds to a double: the rounding is monotone and keeps \<open>MAX_FILE_SIZE\<close>, so the
  comparison with it is the same.
\<close>

definition digit_value :: "char \<Rightarrow> nat" where
  "digit_value c = (of_char c :: nat) - 48"

definition digits_value :: "string \<Rightarrow> nat" where
  "digits_value ds = foldl (\<lambda>a c. 10 * a + digit_value c) 0 ds"

definition parseInt10 :: "string \<Rightarrow> int option" where
  "parseInt10 s =
     (let t = dropWhile is_space s;
          neg = (t \<noteq> [] \<and> hd t = CHR ''-'');
          u = (if t \<noteq> [] \<and> (hd t = CHR ''-'' \<or> hd t = CHR ''+'') then tl t else t);
          ds = takeWhile is_digit u
      in if ds = [] then None
         else Some (if neg then - int (digits_value ds) else int (digits_value ds)))"

definition response_ok :: "response \<Rightarrow> bool" where
  "response_ok r = (200 \<le> status_code r \<and> status_code r \<le> 299)"

text \<open>
  The check of the declared length: \<^verbatim>\<open>if (contentLength)\<close> skips a missing and an empty
  header, and a comparison with \<^verbatim>\<open>NaN\<close> is false.
\<close>

definition declared_too_large :: "string option \<Rightarrow> bool" where
  "declared_too_large contentLength =
     (case contentLength of
        None \<Rightarrow> False
      | Some cl \<Rightarrow>
          cl \<noteq> [] \<and>
          (case parseInt10 cl of None \<Rightarrow> False | Some n \<Rightarrow> n > int MAX_FILE_SIZE))"

text \<open>
  \<^verbatim>\<open>downloadFile\<close>: the buffer or \<^verbatim>\<open>null\<close>, and the effects. Every \<^verbatim>\<open>throw\<close> inside
  the \<^verbatim>\<open>try\<close> block (the status error, a rejected \<^verbatim>\<open>fetch\<close>, a rejected
  \<^verbatim>\<open>arrayBuffer\<close>) ends in the \<^verbatim>\<open>catch\<close> that returns \<^verbatim>\<open>null\<close>.
\<close>

definition downloadFile :: "platform \<Rightarrow> string \<Rightarrow> string \<Rightarrow> bytes option \<times> event list" where
  "downloadFile P url token =
     (if \<not> isAllowedGithubDomain (url_hostname P) url then (None, [])
      else
        (case fetch P url token of
           NetworkError \<Rightarrow> (None, [HttpGet url token])
         | Responded r \<Rightarrow>
             if \<not> response_ok r then (None, [HttpGet url token])
             else if declared_too_large (content_length r) then (None, [HttpGet url token])
             else
               (case body r of
                  BodyFailed \<Rightarrow> (None, [HttpGet url token, ReadBody url])
                | BodyBytes arrayBuffer \<Rightarrow>
                    if length arrayBuffer > MAX_FILE_SIZE
                    then (None, [HttpGet url token, ReadBody url])
                    else (Some arrayBuffer, [HttpGet url token, ReadBody url]))))"

section \<open>Joining, resolving and relating paths\<close>

text \<open>
  \<^verbatim>\<open>normalizeString\<close>: empty components and \<^verbatim>\<open>.\<close> are dropped, \<^verbatim>\<open>..\<close> removes the
  component before it, and is kept only where the path may climb above its start.
\<close>

definition norm_step :: "bool \<Rightarrow> string list \<Rightarrow> string \<Rightarrow> string list" where
  "norm_step allowAboveRoot res seg =
     (if seg = [] \<or> seg = ''.'' then res
      else if seg = ''..'' then
        (if res \<noteq> [] \<and> last res \<noteq> ''..'' then butlast res
         else if allowAboveRoot then res @ [''..''] else res)
      else res @ [seg])"

definition norm_comps :: "bool \<Rightarrow> string \<Rightarrow> string list" where
  "norm_comps allowAboveRoot path = foldl (norm_step allowAboveRoot) [] (split_on slash path)"

definition normalizeString :: "string \<Rightarrow> bool \<Rightarrow> string" where
  "normalizeString path allowAboveRoot = join_with ''/'' (norm_comps allowAboveRoot path)"

definition isAbsolute :: "string \<Rightarrow> bool" where
  "isAbsolute path = (path \<noteq> [] \<and> hd path = slash)"

definition normalize :: "string \<Rightarrow> string" where
  "normalize path =
     (if path = [] then ''.''
      else
        (let trailingSeparator = (last path = slash);
             p = normalizeString path (\<not> isAbsolute path)
         in if p = [] then
              (if isAbsolute path then ''/'' else if trailingSeparator then ''./'' else ''.'')
            else (if isAbsolute path then ''/'' else []) @ p
                   @ (if trailingSeparator then ''/'' else [])))"

text \<open>\<^verbatim>\<open>path.join(a, b)\<close>: the non-empty arguments joined by a slash, normalized.\<close>

definition path_join :: "string \<Rightarrow> string \<Rightarrow> string" where
  "path_join a b =
     (let joined = (if a = [] then b else if b = [] then a else a @ ''/'' @ b)
      in if joined = [] then ''.'' else normalize joined)"

text \<open>
  \<^verbatim>\<open>path.resolve(p)\<close> in the working directory \<open>cwd\<close> (\<^verbatim>\<open>process.cwd()\<close>): the
  working directory is put in front of a path that is not absolute.
\<close>

definition path_resolve :: "string \<Rightarrow> string \<Rightarrow> string" where
  "path_resolve cwd p =
     (let resolved1 = (if p = [] then [] else p @ ''/'');
          resolved2 = (if isAbsolute p \<or> cwd = [] then resolved1
                       else cwd @ ''/'' @ resolved1);
          resolvedAbsolute = (isAbsolute p \<or> isAbsolute cwd);
          r = normalizeString resolved2 (\<not> resolvedAbsolute)
      in if resolvedAbsolute then ''/'' @ r else if r \<noteq> [] then r else ''.'')"

text \<open>
  \<^verbatim>\<open>path.relative(from, to)\<close>: both paths resolved; one \<^verbatim>\<open>..\<close> for every component
  of \<open>from\<close> below the common directory, then the components of \<open>to\<close> below it.
\<close>

definition components :: "string \<Rightarrow> string list" where
  "components p = filter (\<lambda>c. c \<noteq> []) (split_on slash p)"

definition path_relative :: "string \<Rightarrow> string \<Rightarrow> string \<Rightarrow> string" where
  "path_relative cwd from to =
     (if from = to then []
      else
        (let from' = path_resolve cwd from; to' = path_resolve cwd to
         in if from' = to' then []
            else
              (let n = length (longest_common_prefix (components from') (components to'))
               in join_with ''/''
                    (replicate (length (components from') - n) ''..''
                     @ drop n (components to')))))"

section \<open>Facts about splitting\<close>

lemma split_on_nonempty: "split_on c s \<noteq> []"
  by (induction s) (auto split: list.splits)

lemma split_on_no_sep: "w \<in> set (split_on c s) \<Longrightarrow> c \<notin> set w"
  by (induction s arbitrary: w) (auto split: list.splits if_splits)

lemma split_on_free: "c \<notin> set s \<Longrightarrow> split_on c s = [s]"
  by (induction s) auto

lemma split_on_append: "split_on c (a @ c # b) = split_on c a @ split_on c b"
  by (induction a) (auto split: list.splits simp: split_on_nonempty)

lemma split_on_snoc_free: "c \<notin> set w \<Longrightarrow> split_on c (a @ c # w) = split_on c a @ [w]"
  by (simp add: split_on_append split_on_free)

lemma takeWhile_neq_all: "c \<notin> set w \<Longrightarrow> takeWhile (\<lambda>x. x \<noteq> c) w = w"
  by (induction w) auto

lemma last_split_on: "last (split_on c s) = rev (takeWhile (\<lambda>x. x \<noteq> c) (rev s))"
proof (cases "c \<in> set s")
  case False
  then show ?thesis by (simp add: split_on_free takeWhile_neq_all)
next
  case True
  then obtain a w where s: "s = a @ c # w" and w: "c \<notin> set w"
    by (auto dest: split_list_last)
  have "takeWhile (\<lambda>x. x \<noteq> c) (rev w @ c # rev a) = rev w"
    using w by (simp add: takeWhile_append takeWhile_neq_all)
  with s w show ?thesis by (simp add: split_on_snoc_free)
qed

section \<open>Decimal numbers\<close>

text \<open>The text of a counter in a template string: its decimal digits.\<close>

function show_nat :: "nat \<Rightarrow> string" where
  "show_nat n =
     (if n < 10 then [char_of (48 + n)]
      else show_nat (n div 10) @ [char_of (48 + n mod 10)])"
  by pat_completeness auto
termination
  by (relation "measure id") auto

declare show_nat.simps [simp del]

lemma show_nat_small: "n < 10 \<Longrightarrow> show_nat n = [char_of (48 + n)]"
  using show_nat.simps [of n] by simp

lemma show_nat_large:
  "\<not> n < 10 \<Longrightarrow> show_nat n = show_nat (n div 10) @ [char_of (48 + n mod 10)]"
  using show_nat.simps [of n] by simp

lemma show_nat_nonempty: "show_nat n \<noteq> []"
  by (cases "n < 10") (simp_all add: show_nat_small show_nat_large)

lemma digit_char_inj:
  assumes a: "a < 10" and b: "b < 10"
    and e: "(char_of (48 + a) :: char) = char_of (48 + b)"
  shows "a = (b::nat)"
proof -
  have "(of_char (char_of (48 + a) :: char) :: nat) = of_char (char_of (48 + b) :: char)"
    using e by simp
  then have "(48 + a) mod 256 = (48 + b) mod 256"
    by (simp only: of_char_of)
  with a b show ?thesis by simp
qed

lemma show_nat_inj: "show_nat a = show_nat b \<Longrightarrow> a = b"
proof (induction a arbitrary: b rule: show_nat.induct)
  case (1 n)
  show ?case
  proof (cases "n < 10")
    case True
    show ?thesis
    proof (cases "b < 10")
      case b: True
      from "1.prems" have "(char_of (48 + n) :: char) = char_of (48 + b)"
        by (simp add: show_nat_small True b)
      then show ?thesis using True b by (rule digit_char_inj [rotated 2])
    next
      case b: False
      from "1.prems" show_nat_nonempty [of "b div 10"] have False
        by (simp add: show_nat_small True show_nat_large b)
      then show ?thesis ..
    qed
  next
    case False
    show ?thesis
    proof (cases "b < 10")
      case b: True
      from "1.prems" show_nat_nonempty [of "n div 10"] have False
        by (simp add: show_nat_small b show_nat_large False)
      then show ?thesis ..
    next
      case b: False
      from "1.prems"
      have "show_nat (n div 10) = show_nat (b div 10)"
        and d: "(char_of (48 + n mod 10) :: char) = char_of (48 + b mod 10)"
        by (simp_all add: show_nat_large False b)
      then have q: "n div 10 = b div 10" using "1.IH" False by blast
      have "n mod 10 < 10" "b mod 10 < 10" by simp_all
      then have r: "n mod 10 = b mod 10" using d by (rule digit_char_inj)
      have "n = 10 * (n div 10) + n mod 10" by simp
      also have "\<dots> = 10 * (b div 10) + b mod 10" using q r by simp
      also have "\<dots> = b" by simp
      finally show ?thesis .
    qed
  qed
qed

section \<open>Joining a directory and a plain component\<close>

text \<open>
  A plain component is a file name that names an entry of a directory: not empty, no
  slash, and neither \<^verbatim>\<open>.\<close> nor \<^verbatim>\<open>..\<close>. Joining a directory and a plain component
  puts the component behind a prefix that only depends on the directory.
\<close>

definition plain_component :: "string \<Rightarrow> bool" where
  "plain_component c = (c \<noteq> [] \<and> slash \<notin> set c \<and> c \<noteq> ''.'' \<and> c \<noteq> ''..'')"

definition dir_prefix :: "string \<Rightarrow> string" where
  "dir_prefix d =
     (if d = [] then []
      else (if isAbsolute d then ''/'' else [])
           @ concat (map (\<lambda>x. x @ ''/'') (norm_comps (\<not> isAbsolute d) d)))"

lemma join_with_snoc: "join_with sep (xs @ [c]) = concat (map (\<lambda>x. x @ sep) xs) @ c"
  by (induction sep xs rule: join_with.induct) auto

lemma norm_step_plain: "plain_component c \<Longrightarrow> norm_step a res c = res @ [c]"
  by (simp add: norm_step_def plain_component_def)

lemma norm_comps_snoc:
  "plain_component c \<Longrightarrow> norm_comps a (d @ slash # c) = norm_comps a d @ [c]"
  by (simp add: norm_comps_def split_on_snoc_free plain_component_def norm_step_plain)

lemma norm_comps_plain: "plain_component c \<Longrightarrow> norm_comps a c = [c]"
  by (simp add: norm_comps_def split_on_free plain_component_def norm_step_plain)

lemma plain_last: "plain_component c \<Longrightarrow> last (d @ c) \<noteq> slash"
proof -
  assume c: "plain_component c"
  then have "last c \<in> set c" by (simp add: plain_component_def)
  moreover have "slash \<notin> set c" using c by (simp add: plain_component_def)
  moreover have "last (d @ c) = last c" using c by (simp add: plain_component_def)
  ultimately show ?thesis by metis
qed

lemma path_join_plain:
  assumes c: "plain_component c"
  shows "path_join d c = dir_prefix d @ c"
proof (cases "d = []")
  case True
  have "\<not> isAbsolute c" using c by (cases c) (auto simp: isAbsolute_def plain_component_def)
  moreover have "last c \<noteq> slash" using plain_last [OF c, of "[]"] by simp
  ultimately show ?thesis using c True
    by (simp add: path_join_def normalize_def normalizeString_def norm_comps_plain
        dir_prefix_def plain_component_def Let_def)
next
  case False
  let ?j = "d @ slash # c"
  have cne: "c \<noteq> []" using c by (simp add: plain_component_def)
  have jj: "d @ ''/'' @ c = ?j" by (simp add: slash_def)
  have pj: "path_join d c = normalize ?j"
    using False cne by (simp only: path_join_def Let_def jj) simp
  have abs: "isAbsolute ?j = isAbsolute d" using False by (cases d) (auto simp: isAbsolute_def)
  have l: "(last ?j = slash) = False" using plain_last [OF c, of "d @ [slash]"] by simp
  have n: "norm_comps a ?j = norm_comps a d @ [c]" for a by (rule norm_comps_snoc [OF c])
  have jw: "join_with ''/'' (xs @ [c]) = concat (map (\<lambda>x. x @ ''/'') xs) @ c" for xs
    by (rule join_with_snoc)
  have ne: "(concat (map (\<lambda>x. x @ ''/'') xs) @ c = []) = False" for xs
    using cne by simp
  have jne: "(?j = []) = False" by simp
  have "normalize ?j = (if isAbsolute d then ''/'' else [])
          @ concat (map (\<lambda>x. x @ ''/'') (norm_comps (\<not> isAbsolute d) d)) @ c"
    by (simp only: normalize_def Let_def normalizeString_def abs l n jw ne jne if_False
        append_Nil2 append_assoc)
  with pj False show ?thesis by (simp add: dir_prefix_def)
qed

section \<open>The Unique-Path Resolver\<close>

text \<open>
  The file system is the list of the paths that exist (files and directories): it is
  finite. \<^verbatim>\<open>ensureUniqueFilename\<close> loops while the path exists; the loop ends because
  the candidates of different counters are different paths.
\<close>

type_synonym filesystem = "string list"

definition existsSync :: "filesystem \<Rightarrow> string \<Rightarrow> bool" where
  "existsSync fs p = (p \<in> set fs)"

definition numbered :: "string \<Rightarrow> nat \<Rightarrow> string" where
  "numbered filename counter =
     basename filename (extname filename) @ ''_'' @ show_nat counter @ extname filename"

lemma last_portion_no_slash: "slash \<notin> set (last_portion p)"
proof (cases "filter (\<lambda>c. c \<noteq> []) (split_on slash p)")
  case Nil
  then show ?thesis by (simp add: last_portion_def)
next
  case (Cons c cs)
  have "last (c # cs) \<in> set (c # cs)" by (rule last_in_set) simp
  with Cons have "last_portion p \<in> set (filter (\<lambda>c. c \<noteq> []) (split_on slash p))"
    by (simp only: last_portion_def list.case)
  then have "last_portion p \<in> set (split_on slash p)" by simp
  then show ?thesis by (rule split_on_no_sep)
qed

lemma after_last_dot_subset: "set (after_last_dot b) \<subseteq> set b"
  using set_takeWhileD [of _ "\<lambda>c. c \<noteq> CHR ''.''" "rev b"] by (auto simp: after_last_dot_def)

lemma extname_no_slash: "slash \<notin> set (extname p)"
  using last_portion_no_slash [of p] after_last_dot_subset [of "last_portion p"]
  by (auto simp: extname_def Let_def slash_def)

lemma basename_no_slash: "slash \<notin> set (basename p sfx)"
  using last_portion_no_slash [of p] in_set_takeD [of slash _ "last_portion p"]
  by (auto simp: basename_def Let_def)

lemma of_char_digit: "d < 10 \<Longrightarrow> (of_char (char_of (48 + d) :: char) :: nat) = 48 + d"
  by (simp only: of_char_of) simp

lemma show_nat_digits: "c \<in> set (show_nat n) \<Longrightarrow> is_digit c"
proof (induction n rule: show_nat.induct)
  case (1 n)
  show ?case
  proof (cases "n < 10")
    case True
    with "1.prems" have "c = char_of (48 + n)" by (simp add: show_nat_small)
    then show ?thesis using True by (simp only: is_digit_def of_char_digit) simp
  next
    case False
    have m: "n mod 10 < 10" by simp
    from "1.prems" False
    consider "c \<in> set (show_nat (n div 10))" | "c = char_of (48 + n mod 10)"
      by (auto simp: show_nat_large)
    then show ?thesis
    proof cases
      case 1
      then show ?thesis using "1.IH" False by blast
    next
      case 2
      then show ?thesis using m by (simp only: is_digit_def of_char_digit) simp
    qed
  qed
qed

lemma show_nat_no_slash: "slash \<notin> set (show_nat n)"
  using show_nat_digits [of slash n] by (auto simp: is_digit_def slash_def)

lemma numbered_plain: "plain_component (numbered f k)"
proof -
  have u: "CHR ''_'' \<in> set (numbered f k)" by (simp add: numbered_def)
  have "numbered f k \<noteq> ''.''" "numbered f k \<noteq> ''..''" "numbered f k \<noteq> []"
    using u by auto
  moreover have "slash \<notin> set (numbered f k)"
    using extname_no_slash [of f] basename_no_slash [of f "extname f"] show_nat_no_slash [of k]
    by (simp add: numbered_def slash_def)
  ultimately show ?thesis by (simp add: plain_component_def)
qed

lemma numbered_inj: "numbered f a = numbered f b \<Longrightarrow> a = b"
  by (simp add: numbered_def show_nat_inj)

lemma candidate_inj: "inj (\<lambda>k. path_join dir (numbered f k))"
  by (rule injI) (simp add: path_join_plain numbered_plain numbered_inj)

lemma candidates_finite: "finite {k. path_join dir (numbered f k) \<in> set fs}"
proof -
  have "finite ((\<lambda>k. path_join dir (numbered f k)) -` set fs)"
    by (rule finite_vimageI [OF _ candidate_inj]) simp
  then show ?thesis by (simp add: vimage_def)
qed

definition later_candidates :: "filesystem \<Rightarrow> string \<Rightarrow> string \<Rightarrow> nat \<Rightarrow> nat set" where
  "later_candidates fs dir filename counter =
     {k. counter \<le> k \<and> path_join dir (numbered filename k) \<in> set fs}"

definition unique_measure :: "filesystem \<times> string \<times> string \<times> string \<times> nat \<Rightarrow> nat" where
  "unique_measure = (\<lambda>(fs, dir, filename, filePath, counter).
     (if filePath \<in> set fs then 1 else 0) + 2 * card (later_candidates fs dir filename counter))"

lemma later_candidates_finite: "finite (later_candidates fs dir f c)"
  by (rule finite_subset [OF _ candidates_finite [of dir f fs]])
     (simp add: later_candidates_def subset_iff)

lemma later_candidates_Suc:
  "later_candidates fs dir f (Suc c) = later_candidates fs dir f c - {c}"
proof (rule set_eqI)
  fix k
  have "(Suc c \<le> k) = (c \<le> k \<and> k \<noteq> c)" by arith
  then show "(k \<in> later_candidates fs dir f (Suc c)) = (k \<in> later_candidates fs dir f c - {c})"
    by (simp add: later_candidates_def) blast
qed

lemma unique_measure_decreases:
  assumes "filePath \<in> set fs"
  shows "unique_measure (fs, dir, f, path_join dir (numbered f c), Suc c)
         < unique_measure (fs, dir, f, filePath, c)"
proof (cases "path_join dir (numbered f c) \<in> set fs")
  case True
  then have m: "c \<in> later_candidates fs dir f c" by (simp add: later_candidates_def)
  have "card (later_candidates fs dir f c) \<noteq> 0"
    using m later_candidates_finite [of fs dir f c] by (simp only: card_eq_0_iff) blast
  moreover have "card (later_candidates fs dir f (Suc c)) = card (later_candidates fs dir f c) - 1"
    using m by (simp only: later_candidates_Suc card_Diff_singleton)
  ultimately show ?thesis using True assms by (simp add: unique_measure_def)
next
  case False
  have "later_candidates fs dir f (Suc c) \<subseteq> later_candidates fs dir f c"
    by (simp add: later_candidates_Suc)
  then have "card (later_candidates fs dir f (Suc c)) \<le> card (later_candidates fs dir f c)"
    by (rule card_mono [OF later_candidates_finite])
  then show ?thesis using False assms by (simp add: unique_measure_def)
qed

function unique_loop :: "filesystem \<Rightarrow> string \<Rightarrow> string \<Rightarrow> string \<Rightarrow> nat \<Rightarrow> string" where
  "unique_loop fs dir filename filePath counter =
     (if existsSync fs filePath then
        (let ext = extname filename;
             nameWithoutExt = basename filename ext;
             newFilename = nameWithoutExt @ ''_'' @ show_nat counter @ ext
         in unique_loop fs dir filename (path_join dir newFilename) (counter + 1))
      else filePath)"
  by pat_completeness auto
termination
proof (relation "measure unique_measure")
  show "wf (measure unique_measure)" by simp
next
  fix fs :: filesystem and dir filename filePath :: string and counter :: nat
    and x xa xb :: string
  assume ex: "existsSync fs filePath"
    and x: "x = extname filename" and xa: "xa = basename filename x"
    and xb: "xb = xa @ ''_'' @ show_nat counter @ x"
  have xb': "xb = numbered filename counter" using x xa xb by (simp add: numbered_def)
  have "filePath \<in> set fs" using ex by (simp add: existsSync_def)
  then have "unique_measure (fs, dir, filename, path_join dir (numbered filename counter), Suc counter)
         < unique_measure (fs, dir, filename, filePath, counter)"
    by (rule unique_measure_decreases)
  then show "((fs, dir, filename, path_join dir xb, counter + 1),
              (fs, dir, filename, filePath, counter)) \<in> measure unique_measure"
    by (simp add: xb')
qed

declare unique_loop.simps [simp del]

definition ensureUniqueFilename :: "filesystem \<Rightarrow> string \<Rightarrow> string \<Rightarrow> string" where
  "ensureUniqueFilename fs dir filename = unique_loop fs dir filename (path_join dir filename) 1"

section \<open>The Ingestion Orchestrator\<close>

text \<open>
  The environment of a run: the variables \<^verbatim>\<open>main\<close> and \<^verbatim>\<open>setOutput\<close> read
  (\<open>None\<close> for a variable that is not set), the working directory of the process and
  the time \<^verbatim>\<open>new Date().toISOString()\<close> gives.
\<close>

record environment =
  GITHUB_TOKEN :: "string option"
  ISSUE_NUMBER :: "string option"
  COMMENT_BODY :: "string option"
  COMMENT_ID :: "string option"
  GITHUB_REPOSITORY :: "string option"
  GITHUB_OUTPUT :: "string option"
  cwd :: string
  now :: string

text \<open>\<^verbatim>\<open>!v\<close> for a variable: not set, or the empty string.\<close>

definition falsy :: "string option \<Rightarrow> bool" where
  "falsy v = (v = None \<or> v = Some [])"

definition env_value :: "string option \<Rightarrow> string" where
  "env_value v = (case v of None \<Rightarrow> [] | Some s \<Rightarrow> s)"

text \<open>
  \<^verbatim>\<open>setOutput\<close> appends the line \<^verbatim>\<open>name=value\<close> to the file \<^verbatim>\<open>GITHUB_OUTPUT\<close> names.
  It throws (\<open>None\<close>) when the variable is not set or empty, and when
  \<^verbatim>\<open>fs.appendFile\<close> fails.
\<close>

definition setOutput :: "platform \<Rightarrow> environment \<Rightarrow> string \<Rightarrow> string \<Rightarrow> event option" where
  "setOutput P env name val =
     (if falsy (GITHUB_OUTPUT env) then None
      else if fs_succeeds P (AppendOutput (env_value (GITHUB_OUTPUT env)) name val)
      then Some (AppendOutput (env_value (GITHUB_OUTPUT env)) name val)
      else None)"

text \<open>
  The loop over the URLs: the file system, the list \<^verbatim>\<open>downloadedFiles\<close> and the
  effects so far are passed along. A URL whose download gives \<^verbatim>\<open>null\<close> is skipped.
  The first component of the result says whether the loop came to its end: it is
  \<open>False\<close> when \<^verbatim>\<open>fs.writeFile\<close> failed, which ends the loop and the run.
\<close>

fun download_all ::
  "platform \<Rightarrow> string \<Rightarrow> string \<Rightarrow> string list \<Rightarrow>
   filesystem \<times> string list \<times> event list \<Rightarrow>
   bool \<times> filesystem \<times> string list \<times> event list" where
  "download_all P token targetDir [] (fs, downloadedFiles, evs) =
     (True, fs, downloadedFiles, evs)"
| "download_all P token targetDir (url # urls) (fs, downloadedFiles, evs) =
     (case downloadFile P url token of
        (None, es) \<Rightarrow> download_all P token targetDir urls (fs, downloadedFiles, evs @ es)
      | (Some content, es) \<Rightarrow>
          (let filename = getFilenameFromUrl url;
               filePath = ensureUniqueFilename fs targetDir filename
           in if fs_succeeds P (WriteFile filePath content)
              then download_all P token targetDir urls
                     (filePath # fs, downloadedFiles @ [filePath],
                      evs @ es @ [WriteFile filePath content])
              else (False, fs, downloadedFiles, evs @ es)))"

text \<open>How a run ends: normally (exit code 0), or with one of the fatal errors (exit code 1).\<close>

datatype fatal = MissingEnvironment | InvalidIssueNumber | PathTraversal | UncaughtError

record run =
  outcome :: "fatal option"
  events :: "event list"

definition exit_code :: "run \<Rightarrow> nat" where
  "exit_code r = (case outcome r of None \<Rightarrow> 0 | Some e \<Rightarrow> 1)"

text \<open>\<^verbatim>\<open>/^\d+$/.test(s)\<close>.\<close>

definition all_digits :: "string \<Rightarrow> bool" where
  "all_digits s = (s \<noteq> [] \<and> list_all is_digit s)"

text \<open>The traversal guard of \<^verbatim>\<open>main\<close>: true when the run must abort.\<close>

definition traversal_detected :: "string \<Rightarrow> string \<Rightarrow> string \<Rightarrow> bool" where
  "traversal_detected wd baseDir targetDir =
     (let resolvedTargetDir = path_resolve wd targetDir;
          relative = path_relative wd baseDir resolvedTargetDir
      in startsWith relative ''..'' \<or> isAbsolute relative)"

text \<open>The text of the output \<^verbatim>\<open>file_list\<close>: one line per file, the path in backquotes.\<close>

definition file_list :: "string list \<Rightarrow> string" where
  "file_list downloadedFiles =
     join_with [CHR 0x0A] (map (\<lambda>f. ''- '' @ [CHR 0x60] @ f @ [CHR 0x60]) downloadedFiles)"

text \<open>
  The part of \<^verbatim>\<open>main\<close> from the computation of the target directory on, for an issue
  number of any form. \<^verbatim>\<open>mkdir\<close> is recorded for the target directory alone: the
  program never asks whether one of its ancestors exists. An error thrown by
  \<^verbatim>\<open>setOutput\<close> or by an operation on the file system is not caught in \<^verbatim>\<open>main\<close> and
  ends the run.
\<close>

definition ingest ::
  "platform \<Rightarrow> environment \<Rightarrow> filesystem \<Rightarrow> string \<Rightarrow> string \<Rightarrow> string \<Rightarrow> string \<Rightarrow> run" where
  "ingest P env fs token issueNumber commentId commentBody =
     (let baseDir = path_resolve (cwd env) ''uploaded_files'';
          targetDir = path_join baseDir (''issue_'' @ issueNumber)
      in if traversal_detected (cwd env) baseDir targetDir
         then \<lparr>outcome = Some PathTraversal, events = []\<rparr>
         else if \<not> fs_succeeds P (Mkdir targetDir)
         then \<lparr>outcome = Some UncaughtError, events = []\<rparr>
         else
           (let fs1 = targetDir # fs;
                evs1 = [Mkdir targetDir];
                fileUrls = extractFileUrls commentBody
            in if fileUrls = [] then
                 (case setOutput P env ''files_processed'' ''false'' of
                    None \<Rightarrow> \<lparr>outcome = Some UncaughtError, events = evs1\<rparr>
                  | Some e \<Rightarrow> \<lparr>outcome = None, events = evs1 @ [e]\<rparr>)
               else
                 (case download_all P token targetDir fileUrls (fs1, [], evs1) of
                    (completed, fs2, downloadedFiles, evs2) \<Rightarrow>
                      if \<not> completed then \<lparr>outcome = Some UncaughtError, events = evs2\<rparr>
                      else if downloadedFiles \<noteq> [] then
                        (case setOutput P env ''files_processed'' ''true'' of
                           None \<Rightarrow> \<lparr>outcome = Some UncaughtError, events = evs2\<rparr>
                         | Some e1 \<Rightarrow>
                             (case setOutput P env ''file_list'' (file_list downloadedFiles) of
                                None \<Rightarrow> \<lparr>outcome = Some UncaughtError, events = evs2 @ [e1]\<rparr>
                              | Some e2 \<Rightarrow>
                                  (let metadata =
                                         \<lparr>issue_number = issueNumber, comment_id = commentId,
                                          files = downloadedFiles, timestamp = now env\<rparr>;
                                       metadataPath = path_join targetDir ''metadata.json''
                                   in if fs_succeeds P (WriteMetadata metadataPath metadata)
                                      then \<lparr>outcome = None,
                                            events = evs2 @ [e1, e2,
                                              WriteMetadata metadataPath metadata]\<rparr>
                                      else \<lparr>outcome = Some UncaughtError,
                                            events = evs2 @ [e1, e2]\<rparr>)))
                      else
                        (case setOutput P env ''files_processed'' ''false'' of
                           None \<Rightarrow> \<lparr>outcome = Some UncaughtError, events = evs2\<rparr>
                         | Some e \<Rightarrow> \<lparr>outcome = None, events = evs2 @ [e]\<rparr>))))"

text \<open>
  \<^verbatim>\<open>main\<close>, run on the file system \<open>fs\<close>. The \<^verbatim>\<open>Octokit\<close> client and the split of
  the repository name are never used and have no effect.
\<close>

definition main :: "platform \<Rightarrow> environment \<Rightarrow> filesystem \<Rightarrow> run" where
  "main P env fs =
     (if falsy (GITHUB_TOKEN env) \<or> falsy (ISSUE_NUMBER env) \<or> falsy (COMMENT_ID env)
         \<or> falsy (GITHUB_REPOSITORY env)
      then \<lparr>outcome = Some MissingEnvironment, events = []\<rparr>
      else
        (let token = env_value (GITHUB_TOKEN env);
             issueNumber = env_value (ISSUE_NUMBER env);
             commentBody = env_value (COMMENT_BODY env);
             commentId = env_value (COMMENT_ID env)
         in if \<not> all_digits issueNumber
            then \<lparr>outcome = Some InvalidIssueNumber, events = []\<rparr>
            else ingest P env fs token issueNumber commentId commentBody))"

section \<open>Facts about strings\<close>

lemma startsWith_prefix: "startsWith s p = prefix p s"
  by (induction s p rule: startsWith.induct) auto

lemma endsWith_suffix: "endsWith s p = suffix p s"
  by (simp add: endsWith_def startsWith_prefix suffix_to_prefix)

lemma join_split: "join_with [c] (split_on c s) = s"
proof (induction s)
  case Nil
  show ?case by simp
next
  case (Cons x xs)
  obtain w ws where ws: "split_on c xs = w # ws"
    using split_on_nonempty [of c xs] by (cases "split_on c xs") auto
  show ?case
  proof (cases "x = c")
    case True
    then show ?thesis using Cons ws by simp
  next
    case False
    then show ?thesis using Cons ws by (cases ws) auto
  qed
qed

lemma join_with_append:
  "xs \<noteq> [] \<Longrightarrow> ys \<noteq> [] \<Longrightarrow> join_with sep (xs @ ys) = join_with sep xs @ sep @ join_with sep ys"
proof (induction sep xs rule: join_with.induct)
  case (1 sep)
  then show ?case by simp
next
  case (2 sep x)
  then show ?case by (cases ys) auto
next
  case (3 sep x y ys')
  then show ?case by simp
qed

section \<open>C2: the Domain Validator\<close>

text \<open>
  The words of the specification: a host is, or is a subdomain of, a domain when the
  labels of the domain (the parts between the dots) end the labels of the host. The
  program compares strings instead; \<open>host_is_or_under_iff\<close> shows that this is the same.
\<close>

definition labels :: "string \<Rightarrow> string list" where
  "labels host = split_on CHR ''.'' host"

definition host_is_or_under :: "string \<Rightarrow> string \<Rightarrow> bool" where
  "host_is_or_under host domain = suffix (labels domain) (labels host)"

lemma host_is_or_under_iff:
  "host_is_or_under h d = (h = d \<or> endsWith h (CHR ''.'' # d))"
proof
  assume "host_is_or_under h d"
  then obtain zs where zs: "labels h = zs @ labels d"
    by (auto simp: host_is_or_under_def suffix_def)
  have h: "h = join_with ''.'' (labels h)" and d: "d = join_with ''.'' (labels d)"
    by (simp_all add: labels_def join_split)
  show "h = d \<or> endsWith h (CHR ''.'' # d)"
  proof (cases "zs = []")
    case True
    then show ?thesis using zs h d by simp
  next
    case False
    have "labels d \<noteq> []" by (simp add: labels_def split_on_nonempty)
    then have "join_with ''.'' (zs @ labels d) = join_with ''.'' zs @ ''.'' @ join_with ''.'' (labels d)"
      using False by (rule join_with_append [rotated])
    then have "h = join_with ''.'' zs @ CHR ''.'' # d" using h d zs by simp
    then have "suffix (CHR ''.'' # d) h" by (simp add: suffix_def)
    then show ?thesis by (simp add: endsWith_suffix)
  qed
next
  assume "h = d \<or> endsWith h (CHR ''.'' # d)"
  then show "host_is_or_under h d"
  proof
    assume "h = d"
    then show ?thesis by (simp add: host_is_or_under_def)
  next
    assume "endsWith h (CHR ''.'' # d)"
    then obtain p where "h = p @ CHR ''.'' # d" by (auto simp: endsWith_suffix suffix_def)
    then have "labels h = labels p @ labels d" by (simp add: labels_def split_on_append)
    then show ?thesis by (simp add: host_is_or_under_def suffix_def)
  qed
qed

text \<open>
  A reference parser for the examples. The URL parser is the platform's and not part
  of the repository; for a string \<^verbatim>\<open>https://host/path\<close> whose host is made of lower-case
  letters, digits, hyphens and dots, and whose path has no white space, \<^verbatim>\<open>?\<close> or \<^verbatim>\<open>#\<close>,
  \<^verbatim>\<open>new URL(s).hostname\<close> is the text between \<^verbatim>\<open>https://\<close> and the next slash. The
  reference parser gives that host, and \<open>None\<close> for every other string.
\<close>

definition host_char :: "char \<Rightarrow> bool" where
  "host_char c = (is_lower c \<or> is_digit c \<or> c = CHR ''-'' \<or> c = CHR ''.'')"

definition https_host :: "string \<Rightarrow> string option" where
  "https_host s =
     (let rest = drop 8 s; host = takeWhile (\<lambda>c. c \<noteq> CHR ''/'') rest
      in if startsWith s ''https://'' \<and> host \<noteq> [] \<and> list_all host_char host
            \<and> hd host \<noteq> CHR ''.'' \<and> list_all (\<lambda>c. c \<noteq> CHR ''?'' \<and> c \<noteq> CHR ''#'' \<and> \<not> is_space c) rest
         then Some host else None)"

text \<open>
  C2. For every URL string and every URL parser, the Domain Validator returns true if
  and only if the string parses and its host is exactly \<^verbatim>\<open>github.com\<close>, or is, or is a
  subdomain of, \<^verbatim>\<open>githubusercontent.com\<close>; a string that fails to parse gives false. The
  validator is a function to \<open>bool\<close>: it has no side effect. With the reference
  parser it accepts the three example URLs of the specification and rejects
  \<^verbatim>\<open>https://evil.com/github.com/...\<close> and a string that is no URL.
\<close>

theorem domain_validator_contract:
  "(isAllowedGithubDomain parse u \<longleftrightarrow>
      (\<exists>h. parse u = Some h
        \<and> (h = ''github.com'' \<or> host_is_or_under h ''githubusercontent.com'')))
   \<and> (parse u = None \<longrightarrow> \<not> isAllowedGithubDomain parse u)
   \<and> isAllowedGithubDomain https_host ''https://github.com/o/r/assets/1/a.png''
   \<and> isAllowedGithubDomain https_host ''https://raw.githubusercontent.com/o/r/main/f.txt''
   \<and> isAllowedGithubDomain https_host ''https://user-images.githubusercontent.com/1/2/3/abc.png''
   \<and> \<not> isAllowedGithubDomain https_host ''https://evil.com/github.com/x.png''
   \<and> \<not> isAllowedGithubDomain https_host ''not a url''"
proof -
  have general: "isAllowedGithubDomain parse u \<longleftrightarrow>
      (\<exists>h. parse u = Some h
        \<and> (h = ''github.com'' \<or> host_is_or_under h ''githubusercontent.com''))"
    by (cases "parse u") (auto simp: isAllowedGithubDomain_def host_is_or_under_iff)
  have none: "parse u = None \<longrightarrow> \<not> isAllowedGithubDomain parse u"
    by (simp add: isAllowedGithubDomain_def)
  have e1: "https_host ''https://github.com/o/r/assets/1/a.png'' = Some ''github.com''"
    by (simp add: https_host_def host_char_def is_lower_def is_digit_def is_space_def)
  have e2: "https_host ''https://raw.githubusercontent.com/o/r/main/f.txt''
            = Some ''raw.githubusercontent.com''"
    by (simp add: https_host_def host_char_def is_lower_def is_digit_def is_space_def)
  have e3: "https_host ''https://user-images.githubusercontent.com/1/2/3/abc.png''
            = Some ''user-images.githubusercontent.com''"
    by (simp add: https_host_def host_char_def is_lower_def is_digit_def is_space_def)
  have e4: "https_host ''https://evil.com/github.com/x.png'' = Some ''evil.com''"
    by (simp add: https_host_def host_char_def is_lower_def is_digit_def is_space_def)
  have e5: "https_host ''not a url'' = None"
    by (simp add: https_host_def)
  have a1: "isAllowedGithubDomain https_host ''https://github.com/o/r/assets/1/a.png''"
    by (simp add: isAllowedGithubDomain_def e1)
  have a2: "isAllowedGithubDomain https_host ''https://raw.githubusercontent.com/o/r/main/f.txt''"
    by (simp add: isAllowedGithubDomain_def e2 endsWith_def)
  have a3: "isAllowedGithubDomain https_host
              ''https://user-images.githubusercontent.com/1/2/3/abc.png''"
    by (simp add: isAllowedGithubDomain_def e3 endsWith_def)
  have a4: "\<not> isAllowedGithubDomain https_host ''https://evil.com/github.com/x.png''"
    by (simp add: isAllowedGithubDomain_def e4 endsWith_def)
  have a5: "\<not> isAllowedGithubDomain https_host ''not a url''"
    by (simp add: isAllowedGithubDomain_def e5)
  show ?thesis
    by (intro conjI general none a1 a2 a3 a4 a5)
qed

theorem domain_validator_contract_witness:
  "https_host ''not a url'' = None \<and> \<not> isAllowedGithubDomain https_host ''not a url''"
  using domain_validator_contract [of https_host "''not a url''"]
  by (simp add: https_host_def)

section \<open>C5: the Secure Downloader\<close>

text \<open>
  A header declares more than \<open>n\<close> bytes when it is a non-empty run of decimal digits
  whose value is above \<open>n\<close>; the program reads the header with \<^verbatim>\<open>parseInt\<close>.
\<close>

definition declares_more_than :: "string option \<Rightarrow> nat \<Rightarrow> bool" where
  "declares_more_than header n =
     (case header of None \<Rightarrow> False | Some ds \<Rightarrow> all_digits ds \<and> digits_value ds > n)"

lemma digit_not_space: "is_digit c \<Longrightarrow> \<not> is_space c"
  by (auto simp: is_digit_def is_space_def)

lemma digit_not_sign: "is_digit c \<Longrightarrow> c \<noteq> CHR ''-'' \<and> c \<noteq> CHR ''+''"
  by (auto simp: is_digit_def)

lemma takeWhile_all: "list_all p xs \<Longrightarrow> takeWhile p xs = xs"
  by (induction xs) auto

lemma parseInt10_digits:
  assumes "all_digits ds"
  shows "parseInt10 ds = Some (int (digits_value ds))"
proof -
  from assms obtain c cs where ds: "ds = c # cs" and c: "is_digit c" and cs: "list_all is_digit cs"
    by (cases ds) (auto simp: all_digits_def)
  have sp: "dropWhile is_space ds = ds" using ds c by (simp add: digit_not_space)
  have tw: "takeWhile is_digit ds = ds" using ds c cs by (simp add: takeWhile_all)
  show ?thesis
    using digit_not_sign [OF c] by (simp add: parseInt10_def sp Let_def tw) (simp add: ds)
qed

lemma declared_too_large_digits:
  "declares_more_than header MAX_FILE_SIZE \<Longrightarrow> declared_too_large header"
  by (cases header)
     (auto simp: declares_more_than_def declared_too_large_def parseInt10_digits all_digits_def)

text \<open>
  A platform that answers every request in the same way and on which every operation
  on the file system succeeds, for the examples.
\<close>

definition example_platform :: "fetch_result \<Rightarrow> platform" where
  "example_platform answer =
     \<lparr>url_hostname = https_host, fetch = (\<lambda>url token. answer), fs_succeeds = (\<lambda>e. True)\<rparr>"

text \<open>
  C5. For every platform, URL and token, the Secure Downloader returns a complete
  buffer of at most 25 MiB or nothing: nothing and no effect at all (no request) when
  the Domain Validator rejects the URL; nothing on a network error; nothing, the body
  unread, on a status outside 200 to 299 and on a declared length above 25 MiB;
  nothing when the body that was read is longer than 25 MiB or its reading fails. A
  buffer that is returned is the whole body of an accepted URL's successful response.
  The function is total: no error leaves it.
\<close>

theorem downloader_contract:
  "(\<not> isAllowedGithubDomain (url_hostname P) url \<longrightarrow> downloadFile P url token = (None, []))
   \<and> (fetch P url token = NetworkError \<longrightarrow> fst (downloadFile P url token) = None)
   \<and> (\<forall>r. fetch P url token = Responded r \<and> \<not> response_ok r \<longrightarrow>
          fst (downloadFile P url token) = None
          \<and> ReadBody url \<notin> set (snd (downloadFile P url token)))
   \<and> (\<forall>r. fetch P url token = Responded r
          \<and> declares_more_than (content_length r) MAX_FILE_SIZE \<longrightarrow>
          fst (downloadFile P url token) = None
          \<and> ReadBody url \<notin> set (snd (downloadFile P url token)))
   \<and> (\<forall>r b. fetch P url token = Responded r \<and> body r = BodyBytes b
          \<and> length b > MAX_FILE_SIZE \<longrightarrow> fst (downloadFile P url token) = None)
   \<and> (\<forall>r. fetch P url token = Responded r \<and> body r = BodyFailed \<longrightarrow>
          fst (downloadFile P url token) = None)
   \<and> (\<forall>buffer. fst (downloadFile P url token) = Some buffer \<longrightarrow>
          length buffer \<le> MAX_FILE_SIZE
          \<and> isAllowedGithubDomain (url_hostname P) url
          \<and> (\<exists>r. fetch P url token = Responded r \<and> response_ok r
                \<and> body r = BodyBytes buffer))"
proof (intro conjI allI impI)
  assume "\<not> isAllowedGithubDomain (url_hostname P) url"
  then show "downloadFile P url token = (None, [])" by (simp add: downloadFile_def)
next
  assume "fetch P url token = NetworkError"
  then show "fst (downloadFile P url token) = None" by (simp add: downloadFile_def)
next
  fix r assume r: "fetch P url token = Responded r \<and> \<not> response_ok r"
  then show "fst (downloadFile P url token) = None" by (simp add: downloadFile_def)
  from r show "ReadBody url \<notin> set (snd (downloadFile P url token))"
    by (simp add: downloadFile_def)
next
  fix r assume r: "fetch P url token = Responded r
    \<and> declares_more_than (content_length r) MAX_FILE_SIZE"
  then have big: "declared_too_large (content_length r)"
    by (simp add: declared_too_large_digits)
  with r show "fst (downloadFile P url token) = None" by (simp add: downloadFile_def)
  from r big show "ReadBody url \<notin> set (snd (downloadFile P url token))"
    by (simp add: downloadFile_def)
next
  fix r b assume "fetch P url token = Responded r \<and> body r = BodyBytes b
    \<and> length b > MAX_FILE_SIZE"
  then show "fst (downloadFile P url token) = None" by (simp add: downloadFile_def)
next
  fix r assume "fetch P url token = Responded r \<and> body r = BodyFailed"
  then show "fst (downloadFile P url token) = None" by (simp add: downloadFile_def)
next
  fix buffer assume b: "fst (downloadFile P url token) = Some buffer"
  then show "length buffer \<le> MAX_FILE_SIZE"
    by (auto simp: downloadFile_def split: if_splits fetch_result.splits body_read.splits)
  from b show "isAllowedGithubDomain (url_hostname P) url"
    by (auto simp: downloadFile_def split: if_splits)
  from b show "\<exists>r. fetch P url token = Responded r \<and> response_ok r \<and> body r = BodyBytes buffer"
    by (auto simp: downloadFile_def split: if_splits fetch_result.splits body_read.splits)
qed


definition ok_response :: "string option \<Rightarrow> body_read \<Rightarrow> fetch_result" where
  "ok_response header content =
     Responded \<lparr>status_code = 200, content_length = header, body = content\<rparr>"

theorem downloader_contract_witness:
  "downloadFile (example_platform NetworkError) ''https://evil.com/github.com/x.png'' ''t''
     = (None, [])
   \<and> fst (downloadFile (example_platform NetworkError)
            ''https://github.com/user-attachments/files/1/a.png'' ''t'') = None
   \<and> fst (downloadFile
            (example_platform
               (Responded \<lparr>status_code = 404, content_length = None, body = BodyBytes []\<rparr>))
            ''https://github.com/user-attachments/files/1/a.png'' ''t'') = None
   \<and> ReadBody ''https://github.com/user-attachments/files/1/a.png''
       \<notin> set (snd (downloadFile
            (example_platform (ok_response (Some ''30000000'') (BodyBytes [])))
            ''https://github.com/user-attachments/files/1/a.png'' ''t''))
   \<and> fst (downloadFile
            (example_platform (ok_response None (BodyBytes (replicate 27262976 0))))
            ''https://github.com/user-attachments/files/1/a.png'' ''t'') = None
   \<and> fst (downloadFile (example_platform (ok_response None BodyFailed))
            ''https://github.com/user-attachments/files/1/a.png'' ''t'') = None
   \<and> fst (downloadFile (example_platform (ok_response (Some ''3'') (BodyBytes [1, 2, 3])))
            ''https://github.com/user-attachments/files/1/a.png'' ''t'') = Some [1, 2, 3]
   \<and> length [1, 2, 3 :: 8 word] \<le> MAX_FILE_SIZE"
proof -
  let ?u = "''https://github.com/user-attachments/files/1/a.png''"
  have host: "https_host ?u = Some ''github.com''"
    by (simp add: https_host_def host_char_def is_lower_def is_digit_def is_space_def)
  have evil: "https_host ''https://evil.com/github.com/x.png'' = Some ''evil.com''"
    by (simp add: https_host_def host_char_def is_lower_def is_digit_def is_space_def)
  have w1: "downloadFile (example_platform NetworkError) ''https://evil.com/github.com/x.png''
      ''t'' = (None, [])"
    using downloader_contract
      [of "example_platform NetworkError" "''https://evil.com/github.com/x.png''" "''t''"]
    by (simp add: example_platform_def isAllowedGithubDomain_def evil endsWith_def)
  have w2: "fst (downloadFile (example_platform NetworkError) ?u ''t'') = None"
    using downloader_contract [of "example_platform NetworkError" ?u "''t''"]
    by (simp add: example_platform_def)
  have w3: "fst (downloadFile
            (example_platform
               (Responded \<lparr>status_code = 404, content_length = None, body = BodyBytes []\<rparr>))
            ?u ''t'') = None"
    using downloader_contract [of "example_platform
               (Responded \<lparr>status_code = 404, content_length = None, body = BodyBytes []\<rparr>)"
        ?u "''t''"]
    by (simp add: example_platform_def response_ok_def)
  have big: "declares_more_than (Some ''30000000'') MAX_FILE_SIZE"
    by (simp add: declares_more_than_def all_digits_def is_digit_def digits_value_def
        digit_value_def MAX_FILE_SIZE_def)
  have w4: "ReadBody ?u \<notin> set (snd (downloadFile
            (example_platform (ok_response (Some ''30000000'') (BodyBytes []))) ?u ''t''))"
    using downloader_contract
      [of "example_platform (ok_response (Some ''30000000'') (BodyBytes []))" ?u "''t''"] big
    by (simp add: example_platform_def ok_response_def)
  have w5: "fst (downloadFile
            (example_platform (ok_response None (BodyBytes (replicate 27262976 0))))
            ?u ''t'') = None"
    using downloader_contract
      [of "example_platform (ok_response None (BodyBytes (replicate 27262976 0)))" ?u "''t''"]
    by (simp add: example_platform_def ok_response_def MAX_FILE_SIZE_def)
  have w6: "fst (downloadFile (example_platform (ok_response None BodyFailed)) ?u ''t'') = None"
    using downloader_contract [of "example_platform (ok_response None BodyFailed)" ?u "''t''"]
    by (simp add: example_platform_def ok_response_def)
  have w7: "fst (downloadFile (example_platform (ok_response (Some ''3'') (BodyBytes [1, 2, 3])))
            ?u ''t'') = Some [1, 2, 3]"
    by (simp add: downloadFile_def example_platform_def ok_response_def isAllowedGithubDomain_def
        host response_ok_def declared_too_large_def parseInt10_def is_space_def is_digit_def
        digits_value_def digit_value_def MAX_FILE_SIZE_def)
  have w8: "length [1, 2, 3 :: 8 word] \<le> MAX_FILE_SIZE"
    using downloader_contract
      [of "example_platform (ok_response (Some ''3'') (BodyBytes [1, 2, 3]))" ?u "''t''"] w7
    by blast
  show ?thesis by (intro conjI w1 w2 w3 w4 w5 w6 w7 w8)
qed

section \<open>Facts about normalized paths\<close>

text \<open>The absolute path with the components \<open>cs\<close>.\<close>

definition abs_path :: "string list \<Rightarrow> string" where
  "abs_path cs = ''/'' @ join_with ''/'' cs"

lemma split_join:
  "\<forall>x \<in> set xs. c \<notin> set x \<Longrightarrow> xs \<noteq> [] \<Longrightarrow> split_on c (join_with [c] xs) = xs"
proof (induction "[c]" xs rule: join_with.induct)
  case 1
  then show ?case by simp
next
  case (2 x)
  then show ?case by (simp add: split_on_free)
next
  case (3 x y ys)
  then show ?case by (simp add: split_on_append split_on_free)
qed

lemma plain_no_slash: "list_all plain_component xs \<Longrightarrow> \<forall>x \<in> set xs. slash \<notin> set x"
  by (simp add: list_all_iff plain_component_def)

lemma norm_fold_plain:
  "list_all plain_component xs \<Longrightarrow> foldl (norm_step a) res xs = res @ xs"
  by (induction xs arbitrary: res) (simp_all add: norm_step_plain)

lemma norm_step_empty: "norm_step a res [] = res"
  by (simp add: norm_step_def)

lemma norm_comps_abs_path:
  assumes "list_all plain_component ts"
  shows "norm_comps a (abs_path ts) = ts"
proof (cases "ts = []")
  case True
  then show ?thesis
    by (simp add: norm_comps_def abs_path_def slash_def norm_step_empty)
next
  case False
  have "split_on slash (join_with [slash] ts) = ts"
    using plain_no_slash [OF assms] False by (rule split_join)
  then have "split_on slash (abs_path ts) = [] # ts"
    by (simp add: abs_path_def slash_def)
  then show ?thesis
    using assms by (simp add: norm_comps_def norm_step_empty norm_fold_plain)
qed

lemma norm_step_keeps_plain:
  assumes "list_all plain_component res" and "slash \<notin> set seg"
  shows "list_all plain_component (norm_step False res seg)"
proof -
  have "list_all plain_component (butlast res)"
    using assms(1) by (auto simp: list_all_iff dest: in_set_butlastD)
  then show ?thesis
    using assms by (auto simp: norm_step_def plain_component_def)
qed

lemma norm_fold_keeps_plain:
  "list_all plain_component res \<Longrightarrow> \<forall>s \<in> set segs. slash \<notin> set s \<Longrightarrow>
   list_all plain_component (foldl (norm_step False) res segs)"
  by (induction segs arbitrary: res) (simp_all add: norm_step_keeps_plain)

lemma norm_comps_plain_list: "list_all plain_component (norm_comps False p)"
  unfolding norm_comps_def
  by (rule norm_fold_keeps_plain) (auto dest: split_on_no_sep)

lemma norm_comps_trailing: "norm_comps a (d @ ''/'') = norm_comps a d"
proof -
  have "split_on slash (d @ slash # []) = split_on slash d @ [[]]"
    by (simp add: split_on_append)
  then show ?thesis by (simp add: norm_comps_def slash_def norm_step_empty)
qed

lemma resolve_absolute:
  "isAbsolute d \<Longrightarrow> path_resolve wd d = abs_path (norm_comps False d)"
  by (auto simp: path_resolve_def Let_def isAbsolute_def abs_path_def normalizeString_def
      norm_comps_trailing)

lemma resolve_relative:
  assumes "isAbsolute wd" and "\<not> isAbsolute p" and "p \<noteq> []"
  shows "path_resolve wd p = abs_path (norm_comps False (wd @ ''/'' @ p))"
proof -
  have "wd \<noteq> []" using assms(1) by (auto simp: isAbsolute_def)
  moreover have "norm_comps False (wd @ ''/'' @ p @ ''/'') = norm_comps False (wd @ ''/'' @ p)"
    using norm_comps_trailing [of False "wd @ ''/'' @ p"] by simp
  ultimately show ?thesis
    using assms by (simp add: path_resolve_def Let_def abs_path_def normalizeString_def)
qed

lemma join_absolute:
  assumes "isAbsolute d" and "plain_component c"
  shows "path_join d c = abs_path (norm_comps False d @ [c])"
proof -
  have "d \<noteq> []" using assms(1) by (auto simp: isAbsolute_def)
  then show ?thesis
    using assms by (simp add: path_join_plain dir_prefix_def abs_path_def join_with_snoc)
qed

lemma join_with_plain_empty:
  "list_all plain_component ts \<Longrightarrow> (join_with sep ts = []) = (ts = [])"
  by (induction sep ts rule: join_with.induct) (auto simp: plain_component_def)

lemma normalize_absolute:
  assumes "isAbsolute j"
  shows "isAbsolute (normalize j) \<and> norm_comps False (normalize j) = norm_comps False j"
proof -
  let ?ts = "norm_comps False j"
  have pl: "list_all plain_component ?ts" by (rule norm_comps_plain_list)
  have j: "j \<noteq> []" using assms by (auto simp: isAbsolute_def)
  show ?thesis
  proof (cases "?ts = []")
    case True
    then have "normalize j = abs_path []"
      using assms j by (simp add: normalize_def normalizeString_def Let_def abs_path_def)
    then show ?thesis using True by (simp add: norm_comps_abs_path) (simp add: abs_path_def isAbsolute_def slash_def)
  next
    case False
    then have ne: "join_with ''/'' ?ts \<noteq> []" using pl by (simp add: join_with_plain_empty)
    have "normalize j = abs_path ?ts \<or> normalize j = abs_path ?ts @ ''/''"
      using assms j ne by (simp add: normalize_def normalizeString_def Let_def abs_path_def)
    then show ?thesis
    proof
      assume "normalize j = abs_path ?ts"
      then show ?thesis using pl by (simp add: norm_comps_abs_path) (simp add: abs_path_def isAbsolute_def slash_def)
    next
      assume "normalize j = abs_path ?ts @ ''/''"
      then show ?thesis
        using pl norm_comps_trailing [of False "abs_path ?ts"]
        by (simp add: norm_comps_abs_path) (simp add: abs_path_def isAbsolute_def slash_def)
    qed
  qed
qed

lemma components_abs_path:
  assumes "list_all plain_component ts"
  shows "components (abs_path ts) = ts"
proof (cases "ts = []")
  case True
  then show ?thesis by (simp add: components_def abs_path_def slash_def)
next
  case False
  have "split_on slash (join_with [slash] ts) = ts"
    using plain_no_slash [OF assms] False by (rule split_join)
  then have "split_on slash (abs_path ts) = [] # ts"
    by (simp add: abs_path_def slash_def)
  moreover have "filter (\<lambda>c. c \<noteq> []) ts = ts"
    using assms by (simp add: filter_id_conv list_all_iff plain_component_def)
  ultimately show ?thesis by (simp add: components_def)
qed

lemma abs_path_absolute: "isAbsolute (abs_path ts)"
  by (simp add: abs_path_def isAbsolute_def slash_def)

lemma resolve_abs_path:
  "list_all plain_component ts \<Longrightarrow> path_resolve wd (abs_path ts) = abs_path ts"
  by (simp add: resolve_absolute abs_path_absolute norm_comps_abs_path)

lemma abs_path_inj:
  assumes "list_all plain_component bs" and "list_all plain_component ts"
    and "abs_path bs = abs_path ts"
  shows "bs = ts"
proof -
  have "components (abs_path bs) = components (abs_path ts)" using assms(3) by (rule arg_cong)
  then show ?thesis
    by (simp only: components_abs_path [OF assms(1)] components_abs_path [OF assms(2)])
qed

lemma relative_abs_paths:
  assumes bs: "list_all plain_component bs" and ts: "list_all plain_component ts"
  shows "path_relative wd (abs_path bs) (abs_path ts) =
         (if bs = ts then []
          else join_with ''/''
                 (replicate (length bs - length (longest_common_prefix bs ts)) ''..''
                  @ drop (length (longest_common_prefix bs ts)) ts))"
proof (cases "bs = ts")
  case True
  then show ?thesis by (simp add: path_relative_def)
next
  case False
  then have "abs_path bs \<noteq> abs_path ts" using abs_path_inj [OF bs ts] by blast
  then show ?thesis
    using False bs ts
    by (simp add: path_relative_def resolve_abs_path components_abs_path Let_def)
qed

lemma join_with_dotdot: "startsWith (join_with ''/'' (''..'' # xs)) ''..''"
  by (cases xs) simp_all

lemma lcp_full_prefix:
  assumes "length (longest_common_prefix xs ys) = length xs"
  shows "prefix xs ys"
proof -
  have "prefix (longest_common_prefix xs ys) xs" by (rule longest_common_prefix_prefix1)
  then obtain zs where zs: "xs = longest_common_prefix xs ys @ zs" by (auto simp: prefix_def)
  then have "length xs = length (longest_common_prefix xs ys) + length zs"
    by (metis length_append)
  then have "zs = []" using assms by simp
  then have "longest_common_prefix xs ys = xs" using zs by simp
  then show ?thesis using longest_common_prefix_prefix2 [of xs ys] by simp
qed

lemma guard_passes_prefix:
  assumes bs: "list_all plain_component bs" and ts: "list_all plain_component ts"
    and ok: "\<not> traversal_detected wd (abs_path bs) (abs_path ts)"
  shows "prefix bs ts"
proof (rule ccontr)
  assume np: "\<not> prefix bs ts"
  then have ne: "bs \<noteq> ts" by auto
  let ?n = "length (longest_common_prefix bs ts)"
  have "?n \<le> length bs"
    using longest_common_prefix_prefix1 [of bs ts] by (rule prefix_length_le)
  moreover have "?n \<noteq> length bs" using np lcp_full_prefix by blast
  ultimately have "length bs - ?n = Suc (length bs - ?n - 1)" by arith
  then obtain k where k: "length bs - ?n = Suc k" ..
  have "path_relative wd (abs_path bs) (abs_path ts)
        = join_with ''/'' (''..'' # (replicate k ''..'' @ drop ?n ts))"
    using ne by (simp add: relative_abs_paths [OF bs ts] k)
  then have "startsWith (path_relative wd (abs_path bs) (abs_path ts)) ''..''"
    by (simp only: join_with_dotdot)
  then show False
    using ok ts by (simp add: traversal_detected_def resolve_abs_path Let_def)
qed

lemma guard_passes_child:
  assumes bs: "list_all plain_component bs" and c: "plain_component c"
    and nd: "\<not> startsWith c ''..''"
  shows "\<not> traversal_detected wd (abs_path bs) (abs_path (bs @ [c]))"
proof -
  have ts: "list_all plain_component (bs @ [c])" using bs c by simp
  have l: "longest_common_prefix bs (bs @ [c]) = bs"
    by (induction bs) simp_all
  have "path_relative wd (abs_path bs) (abs_path (bs @ [c])) = c"
    by (simp add: relative_abs_paths [OF bs ts] l)
  moreover have "\<not> isAbsolute c" using c by (cases c) (auto simp: isAbsolute_def plain_component_def)
  ultimately show ?thesis
    using nd ts by (simp add: traversal_detected_def resolve_abs_path Let_def)
qed

section \<open>Facts about the Sanitizer\<close>

text \<open>
  The stages of \<^verbatim>\<open>sanitizeFilename\<close>: the name after the check for reserved names, and
  the name after the truncation.
\<close>

definition reserved_checked :: "string \<Rightarrow> string" where
  "reserved_checked filename0 =
     (let filename2 = trim_dots_spaces (replace_invalid filename0)
      in if toUpperCase (hd (split_on CHR ''.'' filename2)) \<in> set reservedNames
         then CHR ''_'' # filename2 else filename2)"

definition truncated :: "string \<Rightarrow> string" where
  "truncated filename3 =
     (if length filename3 > MAX_FILENAME_LENGTH
      then substring0 (basename filename3 (extname filename3))
             (int MAX_FILENAME_LENGTH - int (length (extname filename3)))
           @ extname filename3
      else filename3)"

lemma sanitize_stages:
  "sanitizeFilename filename0 =
     (if truncated (reserved_checked filename0) = [] then ''file''
      else truncated (reserved_checked filename0))"
  by (simp only: sanitizeFilename_def reserved_checked_def truncated_def Let_def)

lemma underscore_valid: "\<not> invalid_char CHR ''_''"
  by (simp add: invalid_char_def)

lemma dot_valid: "\<not> invalid_char CHR ''.''"
  by (simp add: invalid_char_def)

lemma slash_invalid: "invalid_char slash"
  by (simp add: invalid_char_def slash_def)

lemma replace_invalid_valid: "c \<in> set (replace_invalid s) \<Longrightarrow> \<not> invalid_char c"
  by (auto simp: replace_invalid_def underscore_valid)

lemma trim_prefix: "prefix (trim_dots_spaces s) (dropWhile trim_char s)"
proof -
  have "suffix (dropWhile trim_char (rev (dropWhile trim_char s))) (rev (dropWhile trim_char s))"
    by (rule suffix_dropWhile)
  then show ?thesis by (simp add: trim_dots_spaces_def suffix_to_prefix)
qed

lemma trim_subset: "set (trim_dots_spaces s) \<subseteq> set s"
proof -
  have "set (trim_dots_spaces s) \<subseteq> set (dropWhile trim_char s)"
    using trim_prefix by (rule set_mono_prefix)
  also have "\<dots> \<subseteq> set s" by (auto dest: set_dropWhileD)
  finally show ?thesis .
qed

lemma trim_hd:
  assumes "trim_dots_spaces s \<noteq> []"
  shows "\<not> trim_char (hd (trim_dots_spaces s))"
proof -
  from trim_prefix obtain w where w: "dropWhile trim_char s = trim_dots_spaces s @ w"
    by (auto simp: prefix_def)
  then have ne: "dropWhile trim_char s \<noteq> []" using assms by auto
  have "hd (trim_dots_spaces s) = hd (dropWhile trim_char s)" using w assms by simp
  then show ?thesis using hd_dropWhile [OF ne] by simp
qed

lemma trim_last:
  assumes "trim_dots_spaces s \<noteq> []"
  shows "\<not> trim_char (last (trim_dots_spaces s))"
proof -
  let ?d = "dropWhile trim_char (rev (dropWhile trim_char s))"
  have ne: "?d \<noteq> []" using assms by (simp add: trim_dots_spaces_def)
  have "last (trim_dots_spaces s) = hd ?d"
    using ne by (simp add: trim_dots_spaces_def last_rev)
  then show ?thesis using hd_dropWhile [OF ne] by simp
qed

lemma underscore_not_trimmed: "\<not> trim_char CHR ''_''"
  by (simp add: trim_char_def is_space_def)

lemma reserved_checked_valid: "c \<in> set (reserved_checked f) \<Longrightarrow> \<not> invalid_char c"
  using trim_subset [of "replace_invalid f"] replace_invalid_valid [of c f]
  by (auto simp: reserved_checked_def Let_def underscore_valid split: if_splits)

lemma reserved_checked_hd:
  "reserved_checked f \<noteq> [] \<Longrightarrow> \<not> trim_char (hd (reserved_checked f))"
  using trim_hd [of "replace_invalid f"]
  by (auto simp: reserved_checked_def Let_def underscore_not_trimmed split: if_splits)

lemma reserved_checked_last:
  "reserved_checked f \<noteq> [] \<Longrightarrow> \<not> trim_char (last (reserved_checked f))"
  using trim_last [of "replace_invalid f"]
  by (auto simp: reserved_checked_def Let_def underscore_not_trimmed split: if_splits)

text \<open>
  A trimmed name: no slash, not empty, and neither its first nor its last character
  is a dot. Such a name is its stem followed by its extension.
\<close>

definition trimmed_name :: "string \<Rightarrow> bool" where
  "trimmed_name f = (f \<noteq> [] \<and> slash \<notin> set f \<and> hd f \<noteq> CHR ''.'' \<and> last f \<noteq> CHR ''.'')"

lemma reserved_checked_trimmed:
  "reserved_checked f \<noteq> [] \<Longrightarrow> trimmed_name (reserved_checked f)"
  using reserved_checked_hd [of f] reserved_checked_last [of f]
    reserved_checked_valid [of slash f] slash_invalid
  by (auto simp: trimmed_name_def trim_char_def)

lemma last_portion_free: "f \<noteq> [] \<Longrightarrow> slash \<notin> set f \<Longrightarrow> last_portion f = f"
  by (simp add: last_portion_def split_on_free)

lemma after_last_dot_split:
  assumes "CHR ''.'' \<in> set b"
  shows "\<exists>pre. b = pre @ CHR ''.'' # after_last_dot b"
    and "CHR ''.'' \<notin> set (after_last_dot b)"
proof -
  from assms obtain pre e where b: "b = pre @ CHR ''.'' # e" and e: "CHR ''.'' \<notin> set e"
    by (auto dest: split_list_last)
  have "takeWhile (\<lambda>c. c \<noteq> CHR ''.'') (rev e @ CHR ''.'' # rev pre) = rev e"
    using e by (simp add: takeWhile_append takeWhile_neq_all)
  then have "after_last_dot b = e" by (simp add: after_last_dot_def b)
  then show "\<exists>pre. b = pre @ CHR ''.'' # after_last_dot b"
    and "CHR ''.'' \<notin> set (after_last_dot b)" using b e by auto
qed

lemma after_last_dot_none: "CHR ''.'' \<notin> set b \<Longrightarrow> after_last_dot b = b"
  by (simp add: after_last_dot_def takeWhile_neq_all)

lemma extname_trimmed:
  assumes "trimmed_name f"
  shows "extname f = (if CHR ''.'' \<in> set f then CHR ''.'' # after_last_dot f else [])"
proof (cases "CHR ''.'' \<in> set f")
  case False
  then show ?thesis using assms by (simp add: extname_def last_portion_free trimmed_name_def)
next
  case True
  then obtain pre where pre: "f = pre @ CHR ''.'' # after_last_dot f"
    using after_last_dot_split(1) by blast
  have "pre \<noteq> []"
  proof
    assume "pre = []"
    then have "hd f = CHR ''.''" using pre by (metis append_Nil list.sel(1))
    then show False using assms by (simp add: trimmed_name_def)
  qed
  then have "length (after_last_dot f) + 1 \<noteq> length f"
    using arg_cong [OF pre, of length] by simp
  moreover have "f \<noteq> ''..''" using assms by (auto simp: trimmed_name_def)
  ultimately show ?thesis
    using True assms by (simp add: extname_def last_portion_free trimmed_name_def Let_def)
qed

lemma stem_and_extension:
  assumes "trimmed_name f"
  shows "basename f (extname f) @ extname f = f" and "basename f (extname f) \<noteq> []"
proof -
  have lp: "last_portion f = f" using assms by (simp add: last_portion_free trimmed_name_def)
  have both: "basename f (extname f) @ extname f = f \<and> basename f (extname f) \<noteq> []"
  proof (cases "CHR ''.'' \<in> set f")
    case False
    then have "extname f = []" using assms by (simp add: extname_trimmed)
    then show ?thesis using assms by (simp add: basename_def lp trimmed_name_def)
  next
    case True
    then obtain pre where pre: "f = pre @ CHR ''.'' # after_last_dot f"
      using after_last_dot_split(1) by blast
    have ext: "extname f = CHR ''.'' # after_last_dot f"
      using True assms by (simp add: extname_trimmed)
    have ne: "pre \<noteq> []"
    proof
      assume "pre = []"
      then have "hd f = CHR ''.''" using pre by (metis append_Nil list.sel(1))
      then show False using assms by (simp add: trimmed_name_def)
    qed
    have f: "f = pre @ extname f" using pre ext by simp
    have len: "length f = length pre + length (extname f)"
      using arg_cong [OF f, of length] by simp
    have "suffix (extname f) f" using f by (metis suffixI)
    then have ew: "endsWith f (extname f)" by (simp add: endsWith_suffix)
    have neq: "extname f \<noteq> f" using len ne by auto
    have "take (length f - length (extname f)) f = pre"
      using len f by (metis add_diff_cancel_right' append_eq_conv_conj)
    then have "basename f (extname f) = pre"
      using ew neq len ne ext by (simp add: basename_def lp Let_def)
    then show ?thesis using f ne by simp
  qed
  from both show "basename f (extname f) @ extname f = f" ..
  from both show "basename f (extname f) \<noteq> []" ..
qed

lemma truncated_short: "length f \<le> MAX_FILENAME_LENGTH \<Longrightarrow> truncated f = f"
  by (simp add: truncated_def)

lemma truncated_long:
  assumes "trimmed_name f" and "length f > MAX_FILENAME_LENGTH"
  shows "truncated f =
           take (MAX_FILENAME_LENGTH - length (extname f)) (basename f (extname f)) @ extname f"
proof -
  have "nat (int MAX_FILENAME_LENGTH - int (length (extname f)))
        = MAX_FILENAME_LENGTH - length (extname f)" by simp
  then show ?thesis using assms(2) by (simp add: truncated_def substring0_def)
qed

lemma truncated_subset:
  assumes "trimmed_name f"
  shows "set (truncated f) \<subseteq> set f"
proof (cases "length f > MAX_FILENAME_LENGTH")
  case False
  then show ?thesis by (simp add: truncated_short)
next
  case True
  have "set (basename f (extname f) @ extname f) = set f"
    using stem_and_extension(1) [OF assms] by simp
  then have "set (basename f (extname f)) \<subseteq> set f" and "set (extname f) \<subseteq> set f" by auto
  moreover have "set (take n (basename f (extname f))) \<subseteq> set (basename f (extname f))" for n
    by (rule set_take_subset)
  ultimately show ?thesis using truncated_long [OF assms True] by auto
qed

lemma truncated_length:
  assumes "trimmed_name f" and "length f > MAX_FILENAME_LENGTH"
  shows "length (truncated f) = max MAX_FILENAME_LENGTH (length (extname f))"
proof -
  have "length (basename f (extname f)) + length (extname f) = length f"
    using arg_cong [OF stem_and_extension(1) [OF assms(1)], of length] by simp
  then show ?thesis using assms(2) by (simp add: truncated_long [OF assms])
qed

lemma truncated_not_dots:
  assumes "trimmed_name f"
  shows "truncated f \<noteq> [] \<and> truncated f \<noteq> ''.'' \<and> truncated f \<noteq> ''..''"
proof (cases "length f > MAX_FILENAME_LENGTH")
  case False
  then have "truncated f = f" by (simp add: truncated_short)
  moreover have "f \<noteq> [] \<and> f \<noteq> ''.'' \<and> f \<noteq> ''..''"
    using assms by (auto simp: trimmed_name_def)
  ultimately show ?thesis by simp
next
  case True
  show ?thesis
  proof (cases "CHR ''.'' \<in> set f")
    case False
    have "length (truncated f) \<ge> MAX_FILENAME_LENGTH"
      using truncated_length [OF assms True] by simp
    then have a: "truncated f \<noteq> []" by (auto simp: MAX_FILENAME_LENGTH_def)
    have "CHR ''.'' \<notin> set (truncated f)" using truncated_subset [OF assms] False by auto
    then have "truncated f \<noteq> ''.''" and "truncated f \<noteq> ''..''" by auto
    with a show ?thesis by simp
  next
    case dot: True
    let ?e = "after_last_dot f"
    have ext: "extname f = CHR ''.'' # ?e" using dot assms by (simp add: extname_trimmed)
    obtain pre where pre: "f = pre @ CHR ''.'' # ?e"
      using after_last_dot_split(1) [OF dot] by blast
    have "?e \<noteq> []"
    proof
      assume "?e = []"
      then have "last f = CHR ''.''" using pre by (metis last_snoc)
      then show False using assms by (simp add: trimmed_name_def)
    qed
    then obtain x xs where e: "?e = x # xs" by (cases ?e) auto
    have x: "x \<noteq> CHR ''.''" using after_last_dot_split(2) [OF dot] e by auto
    obtain t where t: "truncated f = t @ CHR ''.'' # x # xs"
      using truncated_long [OF assms True] ext e by simp
    have "t @ CHR ''.'' # x # xs \<noteq> []" by simp
    moreover have "t @ CHR ''.'' # x # xs \<noteq> ''.''"
      by (cases t) (simp_all add: append_eq_Cons_conv)
    moreover have "t @ CHR ''.'' # x # xs \<noteq> ''..''"
    proof (cases t)
      case Nil
      then show ?thesis using x by simp
    next
      case (Cons a as)
      then show ?thesis by (cases as) simp_all
    qed
    ultimately show ?thesis using t by simp
  qed
qed

lemma sanitize_valid: "c \<in> set (sanitizeFilename f) \<Longrightarrow> \<not> invalid_char c"
proof (cases "reserved_checked f = []")
  case True
  assume "c \<in> set (sanitizeFilename f)"
  then have "c \<in> set ''file''" using True by (simp add: sanitize_stages truncated_def)
  then show ?thesis by (auto simp: invalid_char_def)
next
  case False
  assume c: "c \<in> set (sanitizeFilename f)"
  have tn: "trimmed_name (reserved_checked f)" using False by (rule reserved_checked_trimmed)
  have "sanitizeFilename f = truncated (reserved_checked f)"
    using truncated_not_dots [OF tn] by (simp add: sanitize_stages)
  then have "c \<in> set (reserved_checked f)" using c truncated_subset [OF tn] by auto
  then show ?thesis by (rule reserved_checked_valid)
qed

lemma sanitize_plain: "plain_component (sanitizeFilename f)"
proof -
  have "slash \<notin> set (sanitizeFilename f)" using sanitize_valid [of slash f] slash_invalid by blast
  moreover have "sanitizeFilename f \<noteq> [] \<and> sanitizeFilename f \<noteq> ''.''
      \<and> sanitizeFilename f \<noteq> ''..''"
  proof (cases "reserved_checked f = []")
    case True
    then show ?thesis by (simp add: sanitize_stages truncated_def)
  next
    case False
    then have tn: "trimmed_name (reserved_checked f)" by (rule reserved_checked_trimmed)
    then show ?thesis using truncated_not_dots [OF tn] by (simp add: sanitize_stages)
  qed
  ultimately show ?thesis by (simp add: plain_component_def)
qed

lemma sanitize_length:
  "length (sanitizeFilename f)
     \<le> max MAX_FILENAME_LENGTH (length (extname (reserved_checked f)))"
proof (cases "reserved_checked f = []")
  case True
  then show ?thesis by (simp add: sanitize_stages truncated_def MAX_FILENAME_LENGTH_def)
next
  case False
  then have tn: "trimmed_name (reserved_checked f)" by (rule reserved_checked_trimmed)
  have s: "sanitizeFilename f = truncated (reserved_checked f)"
    using truncated_not_dots [OF tn] by (simp add: sanitize_stages)
  show ?thesis
  proof (cases "length (reserved_checked f) > MAX_FILENAME_LENGTH")
    case True
    then show ?thesis using truncated_length [OF tn True] s by simp
  next
    case False
    then show ?thesis using s by (simp add: truncated_short)
  qed
qed

lemma getFilenameFromUrl_plain: "plain_component (getFilenameFromUrl url)"
  by (simp add: getFilenameFromUrl_def Let_def sanitize_plain)

section \<open>Facts about the Unique-Path Resolver\<close>

lemma unique_loop_free: "filePath \<notin> set fs \<Longrightarrow> unique_loop fs dir f filePath c = filePath"
  by (subst unique_loop.simps) (simp add: existsSync_def)

lemma unique_loop_taken:
  "filePath \<in> set fs \<Longrightarrow>
   unique_loop fs dir f filePath c = unique_loop fs dir f (path_join dir (numbered f c)) (Suc c)"
  by (subst unique_loop.simps) (simp add: existsSync_def numbered_def Let_def)

lemma unique_loop_first_free:
  "filePath \<in> set fs \<Longrightarrow>
   \<exists>k\<ge>c. unique_loop fs dir f filePath c = path_join dir (numbered f k)
      \<and> path_join dir (numbered f k) \<notin> set fs
      \<and> (\<forall>j. c \<le> j \<and> j < k \<longrightarrow> path_join dir (numbered f j) \<in> set fs)"
proof (induction fs dir f filePath c rule: unique_loop.induct)
  case (1 fs dir filename filePath counter)
  let ?next = "path_join dir (numbered filename counter)"
  have u: "unique_loop fs dir filename filePath counter
           = unique_loop fs dir filename ?next (Suc counter)"
    using "1.prems" by (rule unique_loop_taken)
  show ?case
  proof (cases "?next \<in> set fs")
    case False
    then have "unique_loop fs dir filename filePath counter = ?next"
      using u by (simp add: unique_loop_free)
    then show ?thesis using False by (intro exI [of _ counter]) auto
  next
    case True
    have ex: "existsSync fs filePath" using "1.prems" by (simp add: existsSync_def)
    have "\<exists>k\<ge>counter + 1.
            unique_loop fs dir filename ?next (counter + 1) = path_join dir (numbered filename k)
            \<and> path_join dir (numbered filename k) \<notin> set fs
            \<and> (\<forall>j. counter + 1 \<le> j \<and> j < k \<longrightarrow> path_join dir (numbered filename j) \<in> set fs)"
      using "1.IH" [OF ex refl refl refl] True by (simp add: numbered_def)
    then obtain k where k: "counter + 1 \<le> k"
      and r: "unique_loop fs dir filename ?next (counter + 1) = path_join dir (numbered filename k)"
      and free: "path_join dir (numbered filename k) \<notin> set fs"
      and low: "\<forall>j. counter + 1 \<le> j \<and> j < k \<longrightarrow> path_join dir (numbered filename j) \<in> set fs"
      by blast
    have "\<forall>j. counter \<le> j \<and> j < k \<longrightarrow> path_join dir (numbered filename j) \<in> set fs"
    proof (intro allI impI)
      fix j assume j: "counter \<le> j \<and> j < k"
      show "path_join dir (numbered filename j) \<in> set fs"
      proof (cases "j = counter")
        case True
        then show ?thesis using \<open>?next \<in> set fs\<close> by simp
      next
        case False
        then have "counter + 1 \<le> j \<and> j < k" using j by arith
        then show ?thesis using low by blast
      qed
    qed
    moreover have "counter \<le> k" using k by arith
    ultimately show ?thesis using u r free by (intro exI [of _ k]) simp
  qed
qed

lemma ensureUnique_not_exists: "ensureUniqueFilename fs dir f \<notin> set fs"
proof (cases "path_join dir f \<in> set fs")
  case False
  then show ?thesis by (simp add: ensureUniqueFilename_def unique_loop_free)
next
  case True
  then show ?thesis
    using unique_loop_first_free [OF True, of 1 dir f] by (auto simp: ensureUniqueFilename_def)
qed

lemma ensureUnique_in_dir:
  assumes "plain_component f"
  shows "\<exists>c. plain_component c \<and> ensureUniqueFilename fs dir f = path_join dir c"
proof (cases "path_join dir f \<in> set fs")
  case False
  then show ?thesis using assms by (auto simp: ensureUniqueFilename_def unique_loop_free)
next
  case True
  then obtain k where "ensureUniqueFilename fs dir f = path_join dir (numbered f k)"
    using unique_loop_first_free [OF True, of 1 dir f] by (auto simp: ensureUniqueFilename_def)
  then show ?thesis using numbered_plain by blast
qed

section \<open>Facts about the download loop\<close>

text \<open>The paths of the files a trace writes: downloaded files, and files of any kind.\<close>

fun file_write :: "event \<Rightarrow> string option" where
  "file_write (WriteFile p b) = Some p"
| "file_write e = None"

fun any_write :: "event \<Rightarrow> string option" where
  "any_write (WriteFile p b) = Some p"
| "any_write (WriteMetadata p m) = Some p"
| "any_write e = None"

definition file_writes :: "event list \<Rightarrow> string list" where
  "file_writes evs = List.map_filter file_write evs"

definition written_paths :: "event list \<Rightarrow> string list" where
  "written_paths evs = List.map_filter any_write evs"

text \<open>The effects of a download: the request and the reading of the body.\<close>

fun is_network :: "event \<Rightarrow> bool" where
  "is_network (HttpGet u t) = True"
| "is_network (ReadBody u) = True"
| "is_network e = False"

lemma downloadFile_network: "list_all is_network (snd (downloadFile P url token))"
  by (simp add: downloadFile_def split: fetch_result.splits body_read.splits)

lemma map_filter_append: "List.map_filter f (xs @ ys) = List.map_filter f xs @ List.map_filter f ys"
  by (simp add: List.map_filter_def)

lemma network_no_writes:
  "list_all is_network es \<Longrightarrow> List.map_filter file_write es = []
     \<and> List.map_filter any_write es = []"
proof (induction es)
  case Nil
  show ?case by (simp add: List.map_filter_def)
next
  case (Cons e es)
  then show ?case by (cases e) (simp_all add: List.map_filter_def)
qed

lemma download_all_files:
  "file_writes evs = dl \<Longrightarrow>
   file_writes (snd (snd (snd (download_all P t dir urls (fs, dl, evs)))))
     = fst (snd (snd (download_all P t dir urls (fs, dl, evs))))"
proof (induction urls arbitrary: fs dl evs)
  case Nil
  then show ?case by simp
next
  case (Cons url urls)
  obtain r es where d: "downloadFile P url t = (r, es)" by (cases "downloadFile P url t")
  have net: "list_all is_network es" using downloadFile_network [of P url t] d by simp
  have skip: "file_writes (evs @ es) = dl"
    using Cons.prems network_no_writes [OF net] by (simp add: file_writes_def map_filter_append)
  show ?case
  proof (cases r)
    case None
    then show ?thesis using Cons.IH [OF skip] d by simp
  next
    case (Some content)
    let ?p = "ensureUniqueFilename fs dir (getFilenameFromUrl url)"
    have "file_writes (evs @ es @ [WriteFile ?p content]) = dl @ [?p]"
      using Cons.prems network_no_writes [OF net]
      by (simp add: file_writes_def map_filter_append List.map_filter_def)
    then show ?thesis using Cons.IH d Some skip by (simp add: Let_def)
  qed
qed

lemma download_all_written:
  assumes "\<And>c. plain_component c \<Longrightarrow> Q (path_join dir c)"
  shows "\<forall>p \<in> set (written_paths evs). Q p \<Longrightarrow>
   \<forall>p \<in> set (written_paths (snd (snd (snd (download_all P t dir urls (fs, dl, evs)))))). Q p"
proof (induction urls arbitrary: fs dl evs)
  case Nil
  then show ?case by simp
next
  case (Cons url urls)
  obtain r es where d: "downloadFile P url t = (r, es)" by (cases "downloadFile P url t")
  have net: "list_all is_network es" using downloadFile_network [of P url t] d by simp
  have "written_paths (evs @ es) = written_paths evs"
    using network_no_writes [OF net] by (simp add: written_paths_def map_filter_append)
  then have skip: "\<forall>q \<in> set (written_paths (evs @ es)). Q q" using Cons.prems by simp
  show ?case
  proof (cases r)
    case None
    then show ?thesis using Cons.IH [OF skip] d by simp
  next
    case (Some content)
    let ?p = "ensureUniqueFilename fs dir (getFilenameFromUrl url)"
    obtain c where c: "plain_component c" and p: "?p = path_join dir c"
      using ensureUnique_in_dir [OF getFilenameFromUrl_plain] by blast
    have "written_paths (evs @ es @ [WriteFile ?p content]) = written_paths evs @ [?p]"
      using network_no_writes [OF net]
      by (simp add: written_paths_def map_filter_append List.map_filter_def)
    moreover have "Q ?p" using assms [OF c] p by simp
    ultimately have "\<forall>q \<in> set (written_paths (evs @ es @ [WriteFile ?p content])). Q q"
      using Cons.prems by simp
    then show ?thesis using Cons.IH d Some skip by (simp add: Let_def)
  qed
qed

section \<open>C1: every written path lies strictly inside the base directory\<close>

text \<open>
  A path lies strictly inside a base directory when it is the base, a slash, and one
  or more plain components: none of them is empty, \<^verbatim>\<open>.\<close> or \<^verbatim>\<open>..\<close>.
\<close>

definition strictly_inside :: "string \<Rightarrow> string \<Rightarrow> bool" where
  "strictly_inside base p =
     (startsWith p (base @ ''/'')
      \<and> list_all plain_component (split_on slash (drop (length base + 1) p)))"

lemma abs_path_append:
  "bs \<noteq> [] \<Longrightarrow> rest \<noteq> [] \<Longrightarrow> abs_path (bs @ rest) = abs_path bs @ ''/'' @ join_with ''/'' rest"
  by (simp add: abs_path_def join_with_append)

lemma inside_abs_path:
  assumes "bs \<noteq> []" and "rest \<noteq> []" and "list_all plain_component rest"
  shows "strictly_inside (abs_path bs) (abs_path (bs @ rest))"
proof -
  have "split_on slash (join_with [slash] rest) = rest"
    using plain_no_slash [OF assms(3)] assms(2) by (rule split_join)
  then show ?thesis
    using assms by (simp add: strictly_inside_def abs_path_append startsWith_prefix slash_def)
qed

lemma uploaded_files_plain: "plain_component ''uploaded_files''"
  by (simp add: plain_component_def slash_def)

lemma baseDir_form:
  assumes "isAbsolute wd"
  shows "path_resolve wd ''uploaded_files'' = abs_path (norm_comps False wd @ [''uploaded_files''])"
proof -
  have "\<not> isAbsolute ''uploaded_files''" by (simp add: isAbsolute_def slash_def)
  then have "path_resolve wd ''uploaded_files''
             = abs_path (norm_comps False (wd @ ''/'' @ ''uploaded_files''))"
    using assms by (intro resolve_relative) simp_all
  moreover have "norm_comps False (wd @ slash # ''uploaded_files'')
                 = norm_comps False wd @ [''uploaded_files'']"
    by (rule norm_comps_snoc [OF uploaded_files_plain])
  ultimately show ?thesis by (simp add: slash_def)
qed

lemma traversal_resolved:
  "path_resolve wd T = path_resolve wd T' \<Longrightarrow>
   traversal_detected wd B T = traversal_detected wd B T'"
  by (simp add: traversal_detected_def)

text \<open>The target directory, for an issue number of any form.\<close>

lemma targetDir_form:
  assumes bs: "list_all plain_component bs" and ne: "bs \<noteq> []"
  shows "isAbsolute (path_join (abs_path bs) (''issue_'' @ n))"
    and "path_resolve wd (path_join (abs_path bs) (''issue_'' @ n))
         = abs_path (norm_comps False (path_join (abs_path bs) (''issue_'' @ n)))"
    and "list_all plain_component (norm_comps False (path_join (abs_path bs) (''issue_'' @ n)))"
proof -
  let ?j = "abs_path bs @ ''/'' @ ''issue_'' @ n"
  have j: "path_join (abs_path bs) (''issue_'' @ n) = normalize ?j"
    by (simp add: path_join_def abs_path_def)
  have "isAbsolute ?j" by (simp add: isAbsolute_def abs_path_def slash_def)
  then have "isAbsolute (normalize ?j)" using normalize_absolute by blast
  then show a: "isAbsolute (path_join (abs_path bs) (''issue_'' @ n))" using j by simp
  show "path_resolve wd (path_join (abs_path bs) (''issue_'' @ n))
         = abs_path (norm_comps False (path_join (abs_path bs) (''issue_'' @ n)))"
    using a by (rule resolve_absolute)
  show "list_all plain_component (norm_comps False (path_join (abs_path bs) (''issue_'' @ n)))"
    by (rule norm_comps_plain_list)
qed

lemma write_inside:
  assumes bs: "list_all plain_component bs" and ne: "bs \<noteq> []"
    and ok: "\<not> traversal_detected wd (abs_path bs) (path_join (abs_path bs) (''issue_'' @ n))"
    and c: "plain_component c"
  shows "strictly_inside (abs_path bs) (path_join (path_join (abs_path bs) (''issue_'' @ n)) c)"
proof -
  let ?T = "path_join (abs_path bs) (''issue_'' @ n)"
  let ?ts = "norm_comps False ?T"
  note T = targetDir_form(1) [OF bs ne, where n = n]
    targetDir_form(2) [OF bs ne, where n = n and wd = wd]
    targetDir_form(3) [OF bs ne, where n = n]
  have "path_resolve wd ?T = path_resolve wd (abs_path ?ts)"
    using T(2) T(3) by (simp add: resolve_abs_path)
  then have "\<not> traversal_detected wd (abs_path bs) (abs_path ?ts)"
    using ok traversal_resolved by blast
  then have "prefix bs ?ts" using bs T(3) by (intro guard_passes_prefix)
  then obtain rest where rest: "?ts = bs @ rest" by (auto simp: prefix_def)
  have pr: "list_all plain_component (rest @ [c])"
    using T(3) rest c by simp
  have "path_join ?T c = abs_path (?ts @ [c])" using T(1) c by (rule join_absolute)
  also have "\<dots> = abs_path (bs @ (rest @ [c]))" using rest by simp
  finally show ?thesis using inside_abs_path [OF ne _ pr] by simp
qed

lemma setOutput_event: "setOutput P env name val = Some e \<Longrightarrow> any_write e = None"
  by (auto simp: setOutput_def split: if_splits)

lemma ingest_writes_inside:
  assumes wd: "isAbsolute (cwd env)"
  shows "\<forall>p \<in> set (written_paths (events (ingest P env fs token n cid comment))).
           strictly_inside (path_resolve (cwd env) ''uploaded_files'') p"
proof -
  let ?bs = "norm_comps False (cwd env) @ [''uploaded_files'']"
  let ?B = "path_resolve (cwd env) ''uploaded_files''"
  let ?T = "path_join ?B (''issue_'' @ n)"
  have B: "?B = abs_path ?bs" using wd by (rule baseDir_form)
  have bs: "list_all plain_component ?bs"
    using norm_comps_plain_list [of "cwd env"] uploaded_files_plain by simp
  have ne: "?bs \<noteq> []" by simp
  show ?thesis
  proof (cases "traversal_detected (cwd env) ?B ?T")
    case True
    then show ?thesis by (simp add: ingest_def Let_def written_paths_def List.map_filter_def)
  next
    case False
    have inside: "strictly_inside ?B (path_join ?T c)" if "plain_component c" for c
      using write_inside [OF bs ne _ that, where wd = "cwd env" and n = n] False
      by (simp add: B)
    let ?st = "download_all P token ?T (extractFileUrls comment) (?T # fs, [], [Mkdir ?T])"
    have loop: "\<forall>p \<in> set (written_paths (snd (snd (snd ?st)))). strictly_inside ?B p"
    proof (rule download_all_written [where Q = "strictly_inside ?B"])
      fix c assume "plain_component c"
      then show "strictly_inside ?B (path_join ?T c)" by (rule inside)
    next
      show "\<forall>p \<in> set (written_paths [Mkdir ?T]). strictly_inside ?B p"
        by (simp add: written_paths_def List.map_filter_def)
    qed
    have meta: "strictly_inside ?B (path_join ?T ''metadata.json'')"
      by (rule inside) (simp add: plain_component_def slash_def)
    obtain finished fs2 dl evs2 where st: "?st = (finished, fs2, dl, evs2)" by (cases ?st)
    have l2: "\<forall>p \<in> set (written_paths evs2). strictly_inside ?B p" using loop st by simp
    show ?thesis
      using False l2 meta st
      by (auto simp: ingest_def Let_def written_paths_def map_filter_append List.map_filter_def
          dest!: setOutput_event split: option.splits)
  qed
qed


lemma escape_detected:
  assumes wd: "isAbsolute wd"
    and esc: "\<not> prefix (components (path_resolve wd ''uploaded_files''))
       (components (path_resolve wd
          (path_join (path_resolve wd ''uploaded_files'') (''issue_'' @ n))))"
  shows "traversal_detected wd (path_resolve wd ''uploaded_files'')
           (path_join (path_resolve wd ''uploaded_files'') (''issue_'' @ n))"
proof (rule ccontr)
  let ?bs = "norm_comps False wd @ [''uploaded_files'']"
  let ?T = "path_join (abs_path ?bs) (''issue_'' @ n)"
  let ?ts = "norm_comps False ?T"
  have B: "path_resolve wd ''uploaded_files'' = abs_path ?bs" using wd by (rule baseDir_form)
  have bs: "list_all plain_component ?bs"
    using norm_comps_plain_list [of wd] uploaded_files_plain by simp
  have ne: "?bs \<noteq> []" by simp
  note T = targetDir_form(2) [OF bs ne, where n = n and wd = wd]
    targetDir_form(3) [OF bs ne, where n = n]
  assume "\<not> traversal_detected wd (path_resolve wd ''uploaded_files'')
           (path_join (path_resolve wd ''uploaded_files'') (''issue_'' @ n))"
  then have nd: "\<not> traversal_detected wd (abs_path ?bs) ?T" by (simp add: B)
  have "path_resolve wd ?T = path_resolve wd (abs_path ?ts)"
    using T by (simp add: resolve_abs_path)
  then have "\<not> traversal_detected wd (abs_path ?bs) (abs_path ?ts)"
    using nd traversal_resolved by blast
  then have "prefix ?bs ?ts" using bs T(2) by (intro guard_passes_prefix)
  moreover have "components (path_resolve wd ''uploaded_files'') = ?bs"
    using bs by (simp only: B components_abs_path)
  moreover have "components (path_resolve wd
          (path_join (path_resolve wd ''uploaded_files'') (''issue_'' @ n))) = ?ts"
    using T by (simp only: B components_abs_path)
  ultimately show False using esc by simp
qed

lemma issue_dir_plain:
  assumes "all_digits n"
  shows "plain_component (''issue_'' @ n)" and "\<not> startsWith (''issue_'' @ n) ''..''"
proof -
  have "slash \<notin> set n"
    using assms by (auto simp: all_digits_def list_all_iff is_digit_def slash_def)
  then show "plain_component (''issue_'' @ n)" by (simp add: plain_component_def slash_def)
  show "\<not> startsWith (''issue_'' @ n) ''..''" by simp
qed

lemma numeric_target:
  assumes wd: "isAbsolute wd" and n: "all_digits n"
  shows "path_join (path_resolve wd ''uploaded_files'') (''issue_'' @ n)
         = path_resolve wd ''uploaded_files'' @ ''/issue_'' @ n"
    and "\<not> traversal_detected wd (path_resolve wd ''uploaded_files'')
           (path_join (path_resolve wd ''uploaded_files'') (''issue_'' @ n))"
proof -
  let ?bs = "norm_comps False wd @ [''uploaded_files'']"
  have B: "path_resolve wd ''uploaded_files'' = abs_path ?bs" using wd by (rule baseDir_form)
  have bs: "list_all plain_component ?bs"
    using norm_comps_plain_list [of wd] uploaded_files_plain by simp
  have j: "path_join (abs_path ?bs) (''issue_'' @ n) = abs_path (?bs @ [''issue_'' @ n])"
    using join_absolute [OF abs_path_absolute issue_dir_plain(1) [OF n], of ?bs] bs
    by (simp only: norm_comps_abs_path)
  have "abs_path (?bs @ [''issue_'' @ n]) = abs_path ?bs @ ''/'' @ join_with ''/'' [''issue_'' @ n]"
    by (rule abs_path_append) simp_all
  then show "path_join (path_resolve wd ''uploaded_files'') (''issue_'' @ n)
         = path_resolve wd ''uploaded_files'' @ ''/issue_'' @ n"
    using j by (simp add: B)
  have "\<not> traversal_detected wd (abs_path ?bs) (abs_path (?bs @ [''issue_'' @ n]))"
    using bs issue_dir_plain [OF n] by (intro guard_passes_child)
  then show "\<not> traversal_detected wd (path_resolve wd ''uploaded_files'')
           (path_join (path_resolve wd ''uploaded_files'') (''issue_'' @ n))"
    using j by (simp add: B)
qed

definition example_environment :: "string \<Rightarrow> string \<Rightarrow> string option \<Rightarrow> environment" where
  "example_environment issue comment out =
     \<lparr>GITHUB_TOKEN = Some ''t'', ISSUE_NUMBER = Some issue, COMMENT_BODY = Some comment,
      COMMENT_ID = Some ''7'', GITHUB_REPOSITORY = Some ''o/r'', GITHUB_OUTPUT = out,
      cwd = ''/w'', now = ''2024-01-01T00:00:00.000Z''\<rparr>"

lemma example_fs_succeeds: "fs_succeeds (example_platform answer) e"
  by (simp add: example_platform_def)

lemma example_parts:
  "extractFileUrls ''see ![img](https://user-images.githubusercontent.com/1/2/3/abc.png)''
     = [''https://user-images.githubusercontent.com/1/2/3/abc.png'']"
  "getFilenameFromUrl ''https://user-images.githubusercontent.com/1/2/3/abc.png'' = ''abc.png''"
  "path_resolve ''/w'' ''uploaded_files'' = ''/w/uploaded_files''"
  "path_join ''/w/uploaded_files'' ''issue_42'' = ''/w/uploaded_files/issue_42''"
  "traversal_detected ''/w'' ''/w/uploaded_files'' ''/w/uploaded_files/issue_42'' = False"
  "path_join ''/w/uploaded_files/issue_42'' ''metadata.json''
     = ''/w/uploaded_files/issue_42/metadata.json''"
  "ensureUniqueFilename (''/w/uploaded_files/issue_42'' # []) ''/w/uploaded_files/issue_42''
     ''abc.png'' = ''/w/uploaded_files/issue_42/abc.png''"
  by code_simp+

lemma example_download:
  "downloadFile (example_platform (ok_response None (BodyBytes [1, 2, 3])))
     ''https://user-images.githubusercontent.com/1/2/3/abc.png'' ''t''
   = (Some [1, 2, 3],
      [HttpGet ''https://user-images.githubusercontent.com/1/2/3/abc.png'' ''t'',
       ReadBody ''https://user-images.githubusercontent.com/1/2/3/abc.png''])"
proof -
  have "https_host ''https://user-images.githubusercontent.com/1/2/3/abc.png''
        = Some ''user-images.githubusercontent.com''"
    by code_simp
  then show ?thesis
    by (simp add: downloadFile_def example_platform_def ok_response_def isAllowedGithubDomain_def
        endsWith_def response_ok_def declared_too_large_def MAX_FILE_SIZE_def)
qed

lemma example_run:
  "main (example_platform (ok_response None (BodyBytes [1, 2, 3])))
     (example_environment ''42''
        ''see ![img](https://user-images.githubusercontent.com/1/2/3/abc.png)''
        (Some ''/tmp/out'')) []
   = \<lparr>outcome = None, events =
     [Mkdir ''/w/uploaded_files/issue_42'',
      HttpGet ''https://user-images.githubusercontent.com/1/2/3/abc.png'' ''t'',
      ReadBody ''https://user-images.githubusercontent.com/1/2/3/abc.png'',
      WriteFile ''/w/uploaded_files/issue_42/abc.png'' [1, 2, 3],
      AppendOutput ''/tmp/out'' ''files_processed'' ''true'',
      AppendOutput ''/tmp/out'' ''file_list''
        (''- '' @ [CHR 0x60] @ ''/w/uploaded_files/issue_42/abc.png'' @ [CHR 0x60]),
      WriteMetadata ''/w/uploaded_files/issue_42/metadata.json''
        \<lparr>issue_number = ''42'', comment_id = ''7'',
         files = [''/w/uploaded_files/issue_42/abc.png''],
         timestamp = ''2024-01-01T00:00:00.000Z''\<rparr>]\<rparr>"
  by (simp add: main_def ingest_def example_environment_def falsy_def env_value_def
      all_digits_def is_digit_def example_parts example_download example_fs_succeeds
      setOutput_def file_list_def Let_def)


text \<open>
  C1. In a run whose working directory is an absolute path, every path the pipeline
  writes (the downloaded files and the metadata file) lies strictly inside the base
  directory. This holds for \<^verbatim>\<open>main\<close> and, for an issue number of any form, for the part
  of \<^verbatim>\<open>main\<close> behind the numeric check: when the resolved target directory is not the
  base directory or below it, the guard ends the run with no effect at all. A file
  name derived from a URL, and every numbered variant of it, is a plain component: it
  has no slash and is neither empty, \<^verbatim>\<open>.\<close> nor \<^verbatim>\<open>..\<close>.
\<close>

theorem writes_inside_base:
  assumes "isAbsolute (cwd env)"
  shows "(\<forall>p \<in> set (written_paths (events (main P env fs))).
            strictly_inside (path_resolve (cwd env) ''uploaded_files'') p)
    \<and> (\<forall>p \<in> set (written_paths (events (ingest P env fs token n cid comment))).
            strictly_inside (path_resolve (cwd env) ''uploaded_files'') p)
    \<and> (\<not> prefix (components (path_resolve (cwd env) ''uploaded_files''))
            (components (path_resolve (cwd env)
               (path_join (path_resolve (cwd env) ''uploaded_files'') (''issue_'' @ n))))
         \<longrightarrow> ingest P env fs token n cid comment
               = \<lparr>outcome = Some PathTraversal, events = []\<rparr>)
    \<and> plain_component (getFilenameFromUrl url)
    \<and> (\<forall>k. plain_component (numbered (getFilenameFromUrl url) k))"
proof (intro conjI)
  show "\<forall>p \<in> set (written_paths (events (main P env fs))).
          strictly_inside (path_resolve (cwd env) ''uploaded_files'') p"
  proof (cases "events (main P env fs) = []")
    case True
    then show ?thesis by (simp add: written_paths_def List.map_filter_def)
  next
    case False
    then have "main P env fs = ingest P env fs (env_value (GITHUB_TOKEN env))
        (env_value (ISSUE_NUMBER env)) (env_value (COMMENT_ID env))
        (env_value (COMMENT_BODY env))"
      by (auto simp: main_def Let_def split: if_splits)
    then show ?thesis using ingest_writes_inside [OF assms] by simp
  qed
  show "\<forall>p \<in> set (written_paths (events (ingest P env fs token n cid comment))).
          strictly_inside (path_resolve (cwd env) ''uploaded_files'') p"
    using assms by (rule ingest_writes_inside)
  show "\<not> prefix (components (path_resolve (cwd env) ''uploaded_files''))
            (components (path_resolve (cwd env)
               (path_join (path_resolve (cwd env) ''uploaded_files'') (''issue_'' @ n))))
         \<longrightarrow> ingest P env fs token n cid comment
               = \<lparr>outcome = Some PathTraversal, events = []\<rparr>"
  proof
    assume "\<not> prefix (components (path_resolve (cwd env) ''uploaded_files''))
            (components (path_resolve (cwd env)
               (path_join (path_resolve (cwd env) ''uploaded_files'') (''issue_'' @ n))))"
    then have "traversal_detected (cwd env) (path_resolve (cwd env) ''uploaded_files'')
           (path_join (path_resolve (cwd env) ''uploaded_files'') (''issue_'' @ n))"
      using assms by (intro escape_detected)
    then show "ingest P env fs token n cid comment
               = \<lparr>outcome = Some PathTraversal, events = []\<rparr>"
      by (simp add: ingest_def Let_def)
  qed
  show "plain_component (getFilenameFromUrl url)" by (rule getFilenameFromUrl_plain)
  show "\<forall>k. plain_component (numbered (getFilenameFromUrl url) k)"
    by (simp add: numbered_plain)
qed

lemma example_escape:
  "isAbsolute ''/w''"
  "\<not> prefix (components (path_resolve ''/w'' ''uploaded_files''))
      (components (path_resolve ''/w''
         (path_join (path_resolve ''/w'' ''uploaded_files'') (''issue_'' @ ''/../../etc''))))"
  "path_join (path_resolve ''/w'' ''uploaded_files'') (''issue_'' @ ''/../../etc'') = ''/w/etc''"
  "strictly_inside ''/w/uploaded_files'' ''/w/etc'' = False"
  by code_simp+

theorem writes_inside_base_witness:
  "isAbsolute ''/w''
   \<and> written_paths (events (main (example_platform (ok_response None (BodyBytes [1, 2, 3])))
       (example_environment ''42''
          ''see ![img](https://user-images.githubusercontent.com/1/2/3/abc.png)''
          (Some ''/tmp/out'')) []))
      = [''/w/uploaded_files/issue_42/abc.png'', ''/w/uploaded_files/issue_42/metadata.json'']
   \<and> strictly_inside ''/w/uploaded_files'' ''/w/uploaded_files/issue_42/abc.png''
   \<and> strictly_inside ''/w/uploaded_files'' ''/w/uploaded_files/issue_42/metadata.json''
   \<and> ingest (example_platform (ok_response None (BodyBytes [1, 2, 3])))
       (example_environment ''42'' [] None) [] ''t'' ''/../../etc'' ''7''
       ''see ![img](https://user-images.githubusercontent.com/1/2/3/abc.png)''
      = \<lparr>outcome = Some PathTraversal, events = []\<rparr>"
proof -
  let ?P = "example_platform (ok_response None (BodyBytes [1, 2, 3]))"
  let ?c = "''see ![img](https://user-images.githubusercontent.com/1/2/3/abc.png)''"
  let ?E = "example_environment ''42'' ?c (Some ''/tmp/out'')"
  have wd: "cwd ?E = ''/w''" "cwd (example_environment ''42'' [] None) = ''/w''"
    by (simp_all add: example_environment_def)
  have a: "isAbsolute (cwd ?E)" "isAbsolute (cwd (example_environment ''42'' [] None))"
    by (simp_all add: wd example_escape(1))
  have w: "written_paths (events (main ?P ?E []))
      = [''/w/uploaded_files/issue_42/abc.png'', ''/w/uploaded_files/issue_42/metadata.json'']"
    by (simp add: example_run written_paths_def List.map_filter_def)
  have "\<forall>p \<in> set (written_paths (events (main ?P ?E []))).
          strictly_inside (path_resolve (cwd ?E) ''uploaded_files'') p"
    using writes_inside_base [OF a(1)] by blast
  then have i: "strictly_inside ''/w/uploaded_files'' ''/w/uploaded_files/issue_42/abc.png''"
    "strictly_inside ''/w/uploaded_files'' ''/w/uploaded_files/issue_42/metadata.json''"
    by (simp_all add: w wd example_parts)
  have t: "ingest ?P (example_environment ''42'' [] None) [] ''t'' ''/../../etc'' ''7'' ?c
      = \<lparr>outcome = Some PathTraversal, events = []\<rparr>"
    using writes_inside_base [OF a(2), of ?P "[]" "''t''" "''/../../etc''" "''7''" ?c]
      example_escape(2)
    by (simp only: wd) blast
  show ?thesis by (intro conjI example_escape(1) w i t)
qed

section \<open>C6: the Unique-Path Resolver\<close>

lemma stem_ext_plain:
  assumes ne: "f \<noteq> []" and ns: "slash \<notin> set f"
  shows "basename f (extname f) @ extname f = f"
proof -
  have lp: "last_portion f = f" using assms by (simp add: last_portion_free)
  show ?thesis
  proof (cases "extname f = []")
    case True
    then show ?thesis by (simp add: basename_def lp)
  next
    case False
    then have dot: "CHR ''.'' \<in> set f" and len: "length (after_last_dot f) + 1 \<noteq> length f"
      and ext: "extname f = CHR ''.'' # after_last_dot f"
      by (auto simp: extname_def lp Let_def split: if_splits)
    obtain pre where pre: "f = pre @ CHR ''.'' # after_last_dot f"
      using after_last_dot_split(1) [OF dot] by blast
    have pne: "pre \<noteq> []"
    proof
      assume "pre = []"
      then have "length f = length (after_last_dot f) + 1"
        using arg_cong [OF pre, of length] by simp
      then show False using len by simp
    qed
    have f: "f = pre @ extname f" using pre ext by simp
    have l: "length f = length pre + length (extname f)"
      using arg_cong [OF f, of length] by simp
    have "suffix (extname f) f" using f by (metis suffixI)
    then have ew: "endsWith f (extname f)" by (simp add: endsWith_suffix)
    have neq: "extname f \<noteq> f" using l pne by auto
    have "take (length f - length (extname f)) f = pre"
      using l f by (metis add_diff_cancel_right' append_eq_conv_conj)
    then have "basename f (extname f) = pre"
      using ew neq l pne ext by (simp add: basename_def lp Let_def)
    then show ?thesis using f by simp
  qed
qed

lemma example_unique:
  "ensureUniqueFilename [''/d/photo.png''] ''/d'' ''photo.png'' = ''/d/photo_1.png''"
  "ensureUniqueFilename [''/d/photo.png'', ''/d/photo_1.png''] ''/d'' ''photo.png''
     = ''/d/photo_2.png''"
  "ensureUniqueFilename [] ''/d'' ''photo.png'' = ''/d/photo.png''"
  by code_simp+

text \<open>
  C6. For every file system, directory and file name, the Unique-Path Resolver returns
  a path that does not exist. For a file name that is a plain component (every
  sanitized file name is one), the path is the normalized directory followed by a
  plain name, so it lies in that directory; the name is the candidate itself when the
  candidate is free, and otherwise the candidate with an underscore and the first
  counter from 1 upwards whose path is free, put between its stem and its extension.
  With \<^verbatim>\<open>photo.png\<close> present the candidate \<^verbatim>\<open>photo.png\<close> gives \<^verbatim>\<open>photo_1.png\<close>, and with
  that present too, \<^verbatim>\<open>photo_2.png\<close>.
\<close>

theorem unique_path_resolver:
  "\<not> existsSync fs (ensureUniqueFilename fs dir filename)
   \<and> (plain_component filename \<longrightarrow>
        (\<exists>name. plain_component name
           \<and> ensureUniqueFilename fs dir filename = dir_prefix dir @ name
           \<and> (name = filename \<or> (\<exists>k\<ge>1. name = numbered filename k))))
   \<and> (\<not> existsSync fs (path_join dir filename) \<longrightarrow>
        ensureUniqueFilename fs dir filename = path_join dir filename)
   \<and> (existsSync fs (path_join dir filename) \<longrightarrow>
        (\<exists>k\<ge>1. ensureUniqueFilename fs dir filename = path_join dir (numbered filename k)
           \<and> (\<forall>j. 1 \<le> j \<and> j < k \<longrightarrow> existsSync fs (path_join dir (numbered filename j)))))
   \<and> (plain_component filename \<longrightarrow>
        (\<exists>stem ext. filename = stem @ ext \<and> ext = extname filename
           \<and> (\<forall>k. numbered filename k = stem @ ''_'' @ show_nat k @ ext)))
   \<and> ensureUniqueFilename [''/d/photo.png''] ''/d'' ''photo.png'' = ''/d/photo_1.png''
   \<and> ensureUniqueFilename [''/d/photo.png'', ''/d/photo_1.png''] ''/d'' ''photo.png''
       = ''/d/photo_2.png''"
proof (intro conjI impI)
  show "\<not> existsSync fs (ensureUniqueFilename fs dir filename)"
    by (simp add: existsSync_def ensureUnique_not_exists)
next
  assume pl: "plain_component filename"
  show "\<exists>name. plain_component name
           \<and> ensureUniqueFilename fs dir filename = dir_prefix dir @ name
           \<and> (name = filename \<or> (\<exists>k\<ge>1. name = numbered filename k))"
  proof (cases "path_join dir filename \<in> set fs")
    case False
    then have "ensureUniqueFilename fs dir filename = dir_prefix dir @ filename"
      using pl by (simp add: ensureUniqueFilename_def unique_loop_free path_join_plain)
    then show ?thesis using pl by blast
  next
    case True
    then obtain k where k: "1 \<le> k"
      and r: "ensureUniqueFilename fs dir filename = path_join dir (numbered filename k)"
      using unique_loop_first_free [OF True, of 1 dir filename]
      by (auto simp: ensureUniqueFilename_def)
    have "ensureUniqueFilename fs dir filename = dir_prefix dir @ numbered filename k"
      using r by (simp add: path_join_plain numbered_plain)
    then show ?thesis using k numbered_plain by blast
  qed
next
  assume "\<not> existsSync fs (path_join dir filename)"
  then show "ensureUniqueFilename fs dir filename = path_join dir filename"
    by (simp add: existsSync_def ensureUniqueFilename_def unique_loop_free)
next
  assume "existsSync fs (path_join dir filename)"
  then have "path_join dir filename \<in> set fs" by (simp add: existsSync_def)
  then show "\<exists>k\<ge>1. ensureUniqueFilename fs dir filename = path_join dir (numbered filename k)
           \<and> (\<forall>j. 1 \<le> j \<and> j < k \<longrightarrow> existsSync fs (path_join dir (numbered filename j)))"
    using unique_loop_first_free [of "path_join dir filename" fs 1 dir filename]
    by (auto simp: ensureUniqueFilename_def existsSync_def)
next
  assume pl: "plain_component filename"
  then have "basename filename (extname filename) @ extname filename = filename"
    by (intro stem_ext_plain) (simp_all add: plain_component_def)
  then have "filename = basename filename (extname filename) @ extname filename
      \<and> extname filename = extname filename
      \<and> (\<forall>k. numbered filename k
             = basename filename (extname filename) @ ''_'' @ show_nat k @ extname filename)"
    by (simp add: numbered_def)
  then show "\<exists>stem ext. filename = stem @ ext \<and> ext = extname filename
           \<and> (\<forall>k. numbered filename k = stem @ ''_'' @ show_nat k @ ext)"
    by blast
next
  show "ensureUniqueFilename [''/d/photo.png''] ''/d'' ''photo.png'' = ''/d/photo_1.png''"
    by (rule example_unique(1))
  show "ensureUniqueFilename [''/d/photo.png'', ''/d/photo_1.png''] ''/d'' ''photo.png''
       = ''/d/photo_2.png''"
    by (rule example_unique(2))
qed

lemma example_photo:
  "plain_component ''photo.png''"
  "path_join ''/d'' ''photo.png'' = ''/d/photo.png''"
  "extname ''photo.png'' = ''.png''"
  "dir_prefix ''/d'' = ''/d/''"
  by code_simp+

theorem unique_path_resolver_witness:
  "plain_component ''photo.png''
   \<and> existsSync [''/d/photo.png''] (path_join ''/d'' ''photo.png'')
   \<and> \<not> existsSync [''/d/photo.png''] (ensureUniqueFilename [''/d/photo.png''] ''/d'' ''photo.png'')
   \<and> \<not> existsSync [] (path_join ''/d'' ''photo.png'')
   \<and> ensureUniqueFilename [] ''/d'' ''photo.png'' = ''/d/photo.png''
   \<and> (\<exists>stem. ''photo.png'' = stem @ ''.png''
         \<and> numbered ''photo.png'' 1 = stem @ ''_'' @ show_nat 1 @ ''.png'')"
proof -
  note t = unique_path_resolver [of "[''/d/photo.png'']" "''/d''" "''photo.png''"]
  note t0 = unique_path_resolver [of "[]" "''/d''" "''photo.png''"]
  have e: "existsSync [''/d/photo.png''] (path_join ''/d'' ''photo.png'')"
    by (simp add: existsSync_def example_photo)
  have n: "\<not> existsSync [''/d/photo.png'']
             (ensureUniqueFilename [''/d/photo.png''] ''/d'' ''photo.png'')"
    using t by blast
  have e0: "\<not> existsSync [] (path_join ''/d'' ''photo.png'')" by (simp add: existsSync_def)
  have r0: "ensureUniqueFilename [] ''/d'' ''photo.png'' = ''/d/photo.png''"
    using t0 e0 by (simp add: example_photo)
  have "\<exists>stem ext. ''photo.png'' = stem @ ext \<and> ext = extname ''photo.png''
           \<and> (\<forall>k. numbered ''photo.png'' k = stem @ ''_'' @ show_nat k @ ext)"
    using t example_photo(1) by blast
  then have s: "\<exists>stem. ''photo.png'' = stem @ ''.png''
         \<and> numbered ''photo.png'' 1 = stem @ ''_'' @ show_nat 1 @ ''.png''"
    by (simp only: example_photo(3)) blast
  show ?thesis by (intro conjI example_photo(1) e n e0 r0 s)
qed

section \<open>C7: the manifest\<close>

text \<open>The metadata records a trace writes.\<close>

fun manifest_of :: "event \<Rightarrow> FileMetadata option" where
  "manifest_of (WriteMetadata p m) = Some m"
| "manifest_of e = None"

definition manifests :: "event list \<Rightarrow> FileMetadata list" where
  "manifests evs = List.map_filter manifest_of evs"

lemma network_filtered:
  assumes "\<And>e. is_network e \<Longrightarrow> f e = None"
  shows "list_all is_network es \<Longrightarrow> List.map_filter f es = []"
  by (induction es) (simp_all add: List.map_filter_def assms)

lemma download_all_keeps:
  assumes net: "\<And>e. is_network e \<Longrightarrow> f e = None" and wr: "\<And>p b. f (WriteFile p b) = None"
  shows "List.map_filter f (snd (snd (snd (download_all P t dir urls (fs, dl, evs)))))
         = List.map_filter f evs"
proof (induction urls arbitrary: fs dl evs)
  case Nil
  then show ?case by simp
next
  case (Cons url urls)
  obtain r es where d: "downloadFile P url t = (r, es)" by (cases "downloadFile P url t")
  have "list_all is_network es" using downloadFile_network [of P url t] d by simp
  then have es: "List.map_filter f es = []" using net by (intro network_filtered)
  have skip: "List.map_filter f (evs @ es) = List.map_filter f evs"
    using es by (simp add: map_filter_append)
  show ?case
  proof (cases r)
    case None
    then show ?thesis using Cons.IH [of fs dl "evs @ es"] d skip by simp
  next
    case (Some content)
    let ?p = "ensureUniqueFilename fs dir (getFilenameFromUrl url)"
    have "List.map_filter f (evs @ es @ [WriteFile ?p content]) = List.map_filter f evs"
      using es by (simp add: map_filter_append List.map_filter_def wr)
    then show ?thesis
      using Cons.IH [of "?p # fs" "dl @ [?p]" "evs @ es @ [WriteFile ?p content]"] d Some skip
      by (simp add: Let_def)
  qed
qed

lemma download_all_manifests:
  "manifests (snd (snd (snd (download_all P t dir urls (fs, dl, evs))))) = manifests evs"
proof -
  have "manifest_of e = None" if "is_network e" for e using that by (cases e) simp_all
  then show ?thesis unfolding manifests_def by (intro download_all_keeps) simp_all
qed

text \<open>When no operation on the file system fails, the loop comes to its end.\<close>

lemma download_all_completes:
  assumes "\<And>e. fs_succeeds P e"
  shows "fst (download_all P t dir urls (fs, dl, evs))"
proof (induction urls arbitrary: fs dl evs)
  case Nil
  then show ?case by simp
next
  case (Cons url urls)
  obtain r es where d: "downloadFile P url t = (r, es)" by (cases "downloadFile P url t")
  show ?case
  proof (cases r)
    case None
    then show ?thesis using Cons.IH [of fs dl "evs @ es"] d by simp
  next
    case (Some content)
    let ?p = "ensureUniqueFilename fs dir (getFilenameFromUrl url)"
    show ?thesis
      using Cons.IH [of "?p # fs" "dl @ [?p]" "evs @ es @ [WriteFile ?p content]"] d Some assms
      by (simp add: Let_def)
  qed
qed

lemma ingest_manifest:
  "manifests (events (ingest P env fs token n cid comment))
     = (if outcome (ingest P env fs token n cid comment) = None
           \<and> file_writes (events (ingest P env fs token n cid comment)) \<noteq> []
        then [\<lparr>issue_number = n, comment_id = cid,
               files = file_writes (events (ingest P env fs token n cid comment)),
               timestamp = now env\<rparr>]
        else [])"
proof -
  let ?T = "path_join (path_resolve (cwd env) ''uploaded_files'') (''issue_'' @ n)"
  let ?st = "download_all P token ?T (extractFileUrls comment) (?T # fs, [], [Mkdir ?T])"
  obtain finished fs2 dl evs2 where st: "?st = (finished, fs2, dl, evs2)" by (cases ?st)
  have "file_writes [Mkdir ?T] = []" by (simp add: file_writes_def List.map_filter_def)
  then have "file_writes (snd (snd (snd ?st))) = fst (snd (snd ?st))"
    by (rule download_all_files)
  then have fw: "file_writes evs2 = dl" using st by simp
  have "manifests (snd (snd (snd ?st))) = manifests [Mkdir ?T]" by (rule download_all_manifests)
  then have mf: "manifests evs2 = []" using st by (simp add: manifests_def List.map_filter_def)
  have fw1: "file_writes (evs2 @ [AppendOutput a b c]) = dl" for a b c
    using fw by (simp add: file_writes_def map_filter_append List.map_filter_def)
  have mf1: "manifests (evs2 @ [AppendOutput a b c]) = []" for a b c
    using mf by (simp add: manifests_def map_filter_append List.map_filter_def)
  have fw2: "file_writes (evs2 @ [AppendOutput a b c, AppendOutput a' b' c']) = dl"
    for a b c a' b' c'
    using fw by (simp add: file_writes_def map_filter_append List.map_filter_def)
  have mf2: "manifests (evs2 @ [AppendOutput a b c, AppendOutput a' b' c']) = []"
    for a b c a' b' c'
    using mf by (simp add: manifests_def map_filter_append List.map_filter_def)
  have fw3: "file_writes (evs2 @ [AppendOutput a b c, AppendOutput a' b' c', WriteMetadata p m])
             = dl" for a b c a' b' c' p m
    using fw by (simp add: file_writes_def map_filter_append List.map_filter_def)
  have mf3: "manifests (evs2 @ [AppendOutput a b c, AppendOutput a' b' c', WriteMetadata p m])
             = [m]" for a b c a' b' c' p m
    using mf by (simp add: manifests_def map_filter_append List.map_filter_def)
  have e0: "manifests [] = []" "file_writes [] = []"
    "manifests [Mkdir d] = []" "file_writes [Mkdir d] = []"
    "manifests [Mkdir d, AppendOutput a b c] = []"
    "file_writes [Mkdir d, AppendOutput a b c] = []" for a b c d
    by (simp_all add: manifests_def file_writes_def List.map_filter_def)
  show ?thesis
    using st
    by (simp add: ingest_def Let_def setOutput_def fw mf fw1 mf1 fw2 mf2 fw3 mf3 e0)
qed

lemma ingest_success:
  assumes out: "\<not> falsy (GITHUB_OUTPUT env)"
    and ok: "\<not> traversal_detected (cwd env) (path_resolve (cwd env) ''uploaded_files'')
           (path_join (path_resolve (cwd env) ''uploaded_files'') (''issue_'' @ n))"
    and works: "\<And>e. fs_succeeds P e"
  shows "outcome (ingest P env fs token n cid comment) = None"
proof -
  let ?T = "path_join (path_resolve (cwd env) ''uploaded_files'') (''issue_'' @ n)"
  let ?st = "download_all P token ?T (extractFileUrls comment) (?T # fs, [], [Mkdir ?T])"
  obtain finished fs2 dl evs2 where st: "?st = (finished, fs2, dl, evs2)" by (cases ?st)
  have "fst ?st" using works by (rule download_all_completes)
  then have finished using st by simp
  then show ?thesis
    using st out ok works by (simp add: ingest_def Let_def setOutput_def)
qed

lemma ingest_traversal:
  assumes "traversal_detected (cwd env) (path_resolve (cwd env) ''uploaded_files'')
           (path_join (path_resolve (cwd env) ''uploaded_files'') (''issue_'' @ n))"
  shows "ingest P env fs token n cid comment = \<lparr>outcome = Some PathTraversal, events = []\<rparr>"
  using assms by (simp add: ingest_def Let_def)

lemma main_cases:
  "main P env fs = \<lparr>outcome = Some MissingEnvironment, events = []\<rparr>
   \<or> main P env fs = \<lparr>outcome = Some InvalidIssueNumber, events = []\<rparr>
   \<or> (all_digits (env_value (ISSUE_NUMBER env)) \<and>
       main P env fs = ingest P env fs (env_value (GITHUB_TOKEN env))
         (env_value (ISSUE_NUMBER env)) (env_value (COMMENT_ID env))
         (env_value (COMMENT_BODY env)))"
  by (simp add: main_def Let_def)

lemma exit_code_zero: "(exit_code r = 0) = (outcome r = None)"
  by (cases "outcome r") (simp_all add: exit_code_def)

lemma example_download_only:
  "main (example_platform (ok_response None (BodyBytes [1, 2, 3])))
     (example_environment ''42''
        ''see ![img](https://user-images.githubusercontent.com/1/2/3/abc.png)'' None) []
   = \<lparr>outcome = Some UncaughtError, events =
     [Mkdir ''/w/uploaded_files/issue_42'',
      HttpGet ''https://user-images.githubusercontent.com/1/2/3/abc.png'' ''t'',
      ReadBody ''https://user-images.githubusercontent.com/1/2/3/abc.png'',
      WriteFile ''/w/uploaded_files/issue_42/abc.png'' [1, 2, 3]]\<rparr>"
  by (simp add: main_def ingest_def example_environment_def falsy_def env_value_def
      all_digits_def is_digit_def example_parts example_download example_fs_succeeds
      setOutput_def Let_def)

text \<open>
  Writing a file is not enough for the manifest: a run can write a downloaded file and
  no manifest. With \<^verbatim>\<open>GITHUB_OUTPUT\<close> not set, the run below downloads the image and
  writes it to \<^verbatim>\<open>/w/uploaded_files/issue_42/abc.png\<close>; then
  \<^verbatim>\<open>setOutput('files_processed', 'true')\<close> throws, before the manifest is written, and
  the run ends with exit code 1.
\<close>

theorem manifest_missing_without_channel:
  "file_writes (events (main (example_platform (ok_response None (BodyBytes [1, 2, 3])))
       (example_environment ''42''
          ''see ![img](https://user-images.githubusercontent.com/1/2/3/abc.png)'' None) []))
      = [''/w/uploaded_files/issue_42/abc.png'']
   \<and> manifests (events (main (example_platform (ok_response None (BodyBytes [1, 2, 3])))
       (example_environment ''42''
          ''see ![img](https://user-images.githubusercontent.com/1/2/3/abc.png)'' None) []))
      = []
   \<and> exit_code (main (example_platform (ok_response None (BodyBytes [1, 2, 3])))
       (example_environment ''42''
          ''see ![img](https://user-images.githubusercontent.com/1/2/3/abc.png)'' None) [])
      = 1"
  by (simp add: example_download_only file_writes_def manifests_def List.map_filter_def
      exit_code_def)

text \<open>
  C7. The manifest is written exactly when the run ends successfully (exit
  code 0) and has written at least one downloaded file; it is written once, and its
  list of files is the list of the paths of the downloaded files the run wrote, in the
  order of the writes. A run that wrote no file writes no manifest. A run that wrote
  files and then fails writes none either. When the reporting channel is configured
  and no operation on the file system fails, the manifest is written if and only if a
  file was written.
\<close>

theorem manifest_contract:
  "manifests (events (main P env fs))
     = (if exit_code (main P env fs) = 0 \<and> file_writes (events (main P env fs)) \<noteq> []
        then [\<lparr>issue_number = env_value (ISSUE_NUMBER env),
               comment_id = env_value (COMMENT_ID env),
               files = file_writes (events (main P env fs)),
               timestamp = now env\<rparr>]
        else [])
   \<and> (file_writes (events (main P env fs)) = [] \<longrightarrow> manifests (events (main P env fs)) = [])
   \<and> (exit_code (main P env fs) \<noteq> 0 \<longrightarrow> manifests (events (main P env fs)) = [])
   \<and> (\<not> falsy (GITHUB_OUTPUT env) \<and> (\<forall>e. fs_succeeds P e) \<longrightarrow>
        (manifests (events (main P env fs)) \<noteq> []) = (file_writes (events (main P env fs)) \<noteq> []))"
proof -
  let ?I = "ingest P env fs (env_value (GITHUB_TOKEN env))
         (env_value (ISSUE_NUMBER env)) (env_value (COMMENT_ID env))
         (env_value (COMMENT_BODY env))"
  have e: "manifests [] = []" "file_writes [] = []"
    by (simp_all add: manifests_def file_writes_def List.map_filter_def)
  have main: "manifests (events (main P env fs))
     = (if exit_code (main P env fs) = 0 \<and> file_writes (events (main P env fs)) \<noteq> []
        then [\<lparr>issue_number = env_value (ISSUE_NUMBER env),
               comment_id = env_value (COMMENT_ID env),
               files = file_writes (events (main P env fs)),
               timestamp = now env\<rparr>]
        else [])"
    using main_cases [of P env fs]
  proof (elim disjE conjE)
    assume "main P env fs = \<lparr>outcome = Some MissingEnvironment, events = []\<rparr>"
    then show ?thesis by (simp add: e)
  next
    assume "main P env fs = \<lparr>outcome = Some InvalidIssueNumber, events = []\<rparr>"
    then show ?thesis by (simp add: e)
  next
    assume "main P env fs = ?I"
    then show ?thesis by (simp only: exit_code_zero ingest_manifest)
  qed
  have zero: "file_writes (events (main P env fs)) = [] \<longrightarrow> manifests (events (main P env fs)) = []"
    using main by simp
  have failed: "exit_code (main P env fs) \<noteq> 0 \<longrightarrow> manifests (events (main P env fs)) = []"
    using main by simp
  have chan: "\<not> falsy (GITHUB_OUTPUT env) \<and> (\<forall>e. fs_succeeds P e) \<longrightarrow>
        (manifests (events (main P env fs)) \<noteq> []) = (file_writes (events (main P env fs)) \<noteq> [])"
  proof
    assume a: "\<not> falsy (GITHUB_OUTPUT env) \<and> (\<forall>e. fs_succeeds P e)"
    then have out: "\<not> falsy (GITHUB_OUTPUT env)" and works: "\<And>e. fs_succeeds P e"
      by simp_all
    have "file_writes (events (main P env fs)) \<noteq> [] \<longrightarrow> outcome (main P env fs) = None"
    proof
      assume w: "file_writes (events (main P env fs)) \<noteq> []"
      show "outcome (main P env fs) = None"
        using main_cases [of P env fs]
      proof (elim disjE conjE)
        assume "main P env fs = \<lparr>outcome = Some MissingEnvironment, events = []\<rparr>"
        then show ?thesis using w by (simp add: e)
      next
        assume "main P env fs = \<lparr>outcome = Some InvalidIssueNumber, events = []\<rparr>"
        then show ?thesis using w by (simp add: e)
      next
        assume m: "main P env fs = ?I"
        show ?thesis
        proof (cases "traversal_detected (cwd env) (path_resolve (cwd env) ''uploaded_files'')
             (path_join (path_resolve (cwd env) ''uploaded_files'')
                (''issue_'' @ env_value (ISSUE_NUMBER env)))")
          case True
          then have "?I = \<lparr>outcome = Some PathTraversal, events = []\<rparr>"
            by (rule ingest_traversal)
          then show ?thesis using w m by (simp add: e)
        next
          case False
          then show ?thesis using m ingest_success [OF out False works] by simp
        qed
      qed
    qed
    then show "(manifests (events (main P env fs)) \<noteq> []) = (file_writes (events (main P env fs)) \<noteq> [])"
      using main by (auto simp: exit_code_zero)
  qed
  show ?thesis by (intro conjI main zero failed chan)
qed

lemma example_no_urls:
  "extractFileUrls ''no attachment here'' = []"
  by code_simp

lemma example_run_no_urls:
  "main (example_platform (ok_response None (BodyBytes [1, 2, 3])))
     (example_environment ''42'' ''no attachment here'' (Some ''/tmp/out'')) []
   = \<lparr>outcome = None, events =
     [Mkdir ''/w/uploaded_files/issue_42'',
      AppendOutput ''/tmp/out'' ''files_processed'' ''false'']\<rparr>"
  by (simp add: main_def ingest_def example_environment_def falsy_def env_value_def
      all_digits_def is_digit_def example_parts example_no_urls example_fs_succeeds
      setOutput_def Let_def)

theorem manifest_contract_witness:
  "\<not> falsy (GITHUB_OUTPUT (example_environment ''42''
        ''see ![img](https://user-images.githubusercontent.com/1/2/3/abc.png)''
        (Some ''/tmp/out'')))
   \<and> file_writes (events (main (example_platform (ok_response None (BodyBytes [1, 2, 3])))
       (example_environment ''42''
          ''see ![img](https://user-images.githubusercontent.com/1/2/3/abc.png)''
          (Some ''/tmp/out'')) []))
      = [''/w/uploaded_files/issue_42/abc.png'']
   \<and> manifests (events (main (example_platform (ok_response None (BodyBytes [1, 2, 3])))
       (example_environment ''42''
          ''see ![img](https://user-images.githubusercontent.com/1/2/3/abc.png)''
          (Some ''/tmp/out'')) []))
      = [\<lparr>issue_number = ''42'', comment_id = ''7'',
          files = [''/w/uploaded_files/issue_42/abc.png''],
          timestamp = ''2024-01-01T00:00:00.000Z''\<rparr>]
   \<and> file_writes (events (main (example_platform (ok_response None (BodyBytes [1, 2, 3])))
       (example_environment ''42'' ''no attachment here'' (Some ''/tmp/out'')) [])) = []
   \<and> manifests (events (main (example_platform (ok_response None (BodyBytes [1, 2, 3])))
       (example_environment ''42'' ''no attachment here'' (Some ''/tmp/out'')) [])) = []"
proof -
  let ?P = "example_platform (ok_response None (BodyBytes [1, 2, 3]))"
  let ?E = "example_environment ''42''
        ''see ![img](https://user-images.githubusercontent.com/1/2/3/abc.png)''
        (Some ''/tmp/out'')"
  let ?N = "example_environment ''42'' ''no attachment here'' (Some ''/tmp/out'')"
  have o: "\<not> falsy (GITHUB_OUTPUT ?E)" by (simp add: example_environment_def falsy_def)
  have s: "\<forall>e. fs_succeeds ?P e" by (simp add: example_fs_succeeds)
  have f: "file_writes (events (main ?P ?E [])) = [''/w/uploaded_files/issue_42/abc.png'']"
    by (simp add: example_run file_writes_def List.map_filter_def)
  have fne: "file_writes (events (main ?P ?E [])) \<noteq> []" by (simp add: f)
  have ne: "manifests (events (main ?P ?E [])) \<noteq> []"
    using manifest_contract [of ?P ?E "[]"] o s fne by blast
  have x: "exit_code (main ?P ?E []) = 0"
    using manifest_contract [of ?P ?E "[]"] ne by blast
  have m: "manifests (events (main ?P ?E []))
      = [\<lparr>issue_number = ''42'', comment_id = ''7'',
          files = [''/w/uploaded_files/issue_42/abc.png''],
          timestamp = ''2024-01-01T00:00:00.000Z''\<rparr>]"
    using manifest_contract [of ?P ?E "[]"] x
    by (simp add: f) (simp add: example_environment_def env_value_def)
  have f0: "file_writes (events (main ?P ?N [])) = []"
    by (simp add: example_run_no_urls file_writes_def List.map_filter_def)
  have m0: "manifests (events (main ?P ?N [])) = []"
    using manifest_contract [of ?P ?N "[]"] f0 by blast
  show ?thesis by (intro conjI o f m f0 m0)
qed

section \<open>C8: the numeric check comes first\<close>

text \<open>
  C8. When the event identifier is not purely numeric (or not set), the run ends with
  exit code 1 and with no effect: no directory is created and no file is written. It
  ends at the check of the required variables or at the numeric check, never at the
  traversal guard, and the result depends neither on the working directory, which is
  all the guard reads besides the identifier, nor on the file system or the platform.
\<close>

theorem invalid_identifier_aborts:
  assumes "\<not> all_digits (env_value (ISSUE_NUMBER env))"
  shows "exit_code (main P env fs) = 1
    \<and> events (main P env fs) = []
    \<and> (outcome (main P env fs) = Some MissingEnvironment
        \<or> outcome (main P env fs) = Some InvalidIssueNumber)
    \<and> (\<not> falsy (GITHUB_TOKEN env) \<and> \<not> falsy (ISSUE_NUMBER env) \<and> \<not> falsy (COMMENT_ID env)
          \<and> \<not> falsy (GITHUB_REPOSITORY env)
        \<longrightarrow> outcome (main P env fs) = Some InvalidIssueNumber)
    \<and> main P env fs = main P' (env\<lparr>cwd := wd\<rparr>) fs'"
  using assms by (simp add: main_def Let_def exit_code_def)

theorem invalid_identifier_aborts_witness:
  "\<not> all_digits (env_value (ISSUE_NUMBER (example_environment ''/../../etc'' [] None)))
   \<and> main (example_platform NetworkError) (example_environment ''/../../etc'' [] None) []
      = \<lparr>outcome = Some InvalidIssueNumber, events = []\<rparr>"
proof -
  let ?E = "example_environment ''/../../etc'' [] None"
  have n: "\<not> all_digits (env_value (ISSUE_NUMBER ?E))"
    by (simp add: example_environment_def env_value_def all_digits_def is_digit_def)
  have f: "\<not> falsy (GITHUB_TOKEN ?E) \<and> \<not> falsy (ISSUE_NUMBER ?E) \<and> \<not> falsy (COMMENT_ID ?E)
          \<and> \<not> falsy (GITHUB_REPOSITORY ?E)"
    by (simp add: example_environment_def falsy_def)
  have "events (main (example_platform NetworkError) ?E []) = []
      \<and> outcome (main (example_platform NetworkError) ?E []) = Some InvalidIssueNumber"
    using invalid_identifier_aborts [OF n, of "example_platform NetworkError" "[]"] f by blast
  then have "main (example_platform NetworkError) ?E []
      = \<lparr>outcome = Some InvalidIssueNumber, events = []\<rparr>"
    by (cases "main (example_platform NetworkError) ?E []") simp
  then show ?thesis using n by simp
qed

section \<open>C10: the reporting channel is required\<close>

lemma ingest_without_output:
  assumes "falsy (GITHUB_OUTPUT env)"
  shows "outcome (ingest P env fs token n cid comment) \<noteq> None"
proof -
  let ?T = "path_join (path_resolve (cwd env) ''uploaded_files'') (''issue_'' @ n)"
  let ?st = "download_all P token ?T (extractFileUrls comment) (?T # fs, [], [Mkdir ?T])"
  obtain finished fs2 dl evs2 where st: "?st = (finished, fs2, dl, evs2)" by (cases ?st)
  show ?thesis using st assms by (simp add: ingest_def Let_def setOutput_def)
qed

text \<open>
  C10. When \<^verbatim>\<open>GITHUB_OUTPUT\<close> is not set (or empty), \<^verbatim>\<open>setOutput\<close> throws, whatever
  it is asked to emit, and every run ends with exit code 1. In particular a run with
  the four required variables set, a numeric issue number and a comment without URLs
  ends with an uncaught error: when the target directory can be created, the run
  creates it, and that is its only effect, and then ends with the error
  \<^verbatim>\<open>setOutput\<close> throws. With \<^verbatim>\<open>GITHUB_OUTPUT\<close> set, and when no operation on the file
  system fails, the same inputs (with or without URLs) give exit code 0: the variable
  is one more required input.
\<close>

theorem output_channel_required:
  "(falsy (GITHUB_OUTPUT env) \<longrightarrow> setOutput P env name val = None)
   \<and> (falsy (GITHUB_OUTPUT env) \<longrightarrow> exit_code (main P env fs) = 1)
   \<and> (falsy (GITHUB_OUTPUT env)
       \<and> \<not> falsy (GITHUB_TOKEN env) \<and> \<not> falsy (COMMENT_ID env)
       \<and> \<not> falsy (GITHUB_REPOSITORY env) \<and> all_digits (env_value (ISSUE_NUMBER env))
       \<and> isAbsolute (cwd env) \<and> extractFileUrls (env_value (COMMENT_BODY env)) = []
      \<longrightarrow> main P env fs
          = \<lparr>outcome = Some UncaughtError,
             events =
               (if fs_succeeds P (Mkdir (path_resolve (cwd env) ''uploaded_files''
                                         @ ''/issue_'' @ env_value (ISSUE_NUMBER env)))
                then [Mkdir (path_resolve (cwd env) ''uploaded_files''
                             @ ''/issue_'' @ env_value (ISSUE_NUMBER env))]
                else [])\<rparr>)
   \<and> (\<not> falsy (GITHUB_OUTPUT env)
       \<and> \<not> falsy (GITHUB_TOKEN env) \<and> \<not> falsy (COMMENT_ID env)
       \<and> \<not> falsy (GITHUB_REPOSITORY env) \<and> all_digits (env_value (ISSUE_NUMBER env))
       \<and> isAbsolute (cwd env) \<and> (\<forall>e. fs_succeeds P e)
      \<longrightarrow> exit_code (main P env fs) = 0)"
proof (intro conjI impI)
  assume "falsy (GITHUB_OUTPUT env)"
  then show "setOutput P env name val = None" by (simp add: setOutput_def)
next
  assume out: "falsy (GITHUB_OUTPUT env)"
  show "exit_code (main P env fs) = 1"
    using main_cases [of P env fs]
  proof (elim disjE conjE)
    assume "main P env fs = \<lparr>outcome = Some MissingEnvironment, events = []\<rparr>"
    then show ?thesis by (simp add: exit_code_def)
  next
    assume "main P env fs = \<lparr>outcome = Some InvalidIssueNumber, events = []\<rparr>"
    then show ?thesis by (simp add: exit_code_def)
  next
    assume m: "main P env fs = ingest P env fs (env_value (GITHUB_TOKEN env))
         (env_value (ISSUE_NUMBER env)) (env_value (COMMENT_ID env))
         (env_value (COMMENT_BODY env))"
    have "outcome (main P env fs) \<noteq> None"
      unfolding m by (rule ingest_without_output [OF out])
    then show ?thesis by (cases "outcome (main P env fs)") (simp_all add: exit_code_def)
  qed
next
  assume a: "falsy (GITHUB_OUTPUT env)
       \<and> \<not> falsy (GITHUB_TOKEN env) \<and> \<not> falsy (COMMENT_ID env)
       \<and> \<not> falsy (GITHUB_REPOSITORY env) \<and> all_digits (env_value (ISSUE_NUMBER env))
       \<and> isAbsolute (cwd env) \<and> extractFileUrls (env_value (COMMENT_BODY env)) = []"
  then have wd: "isAbsolute (cwd env)" and n: "all_digits (env_value (ISSUE_NUMBER env))"
    by simp_all
  have nf: "\<not> falsy (ISSUE_NUMBER env)"
    using n by (auto simp: falsy_def env_value_def all_digits_def split: option.splits)
  note t = numeric_target [OF wd n]
  have "ingest P env fs (env_value (GITHUB_TOKEN env))
         (env_value (ISSUE_NUMBER env)) (env_value (COMMENT_ID env))
         (env_value (COMMENT_BODY env))
        = \<lparr>outcome = Some UncaughtError,
             events =
               (if fs_succeeds P (Mkdir (path_resolve (cwd env) ''uploaded_files''
                                         @ ''/issue_'' @ env_value (ISSUE_NUMBER env)))
                then [Mkdir (path_resolve (cwd env) ''uploaded_files''
                             @ ''/issue_'' @ env_value (ISSUE_NUMBER env))]
                else [])\<rparr>"
    using a t by (simp add: ingest_def Let_def setOutput_def)
  then show "main P env fs
          = \<lparr>outcome = Some UncaughtError,
             events =
               (if fs_succeeds P (Mkdir (path_resolve (cwd env) ''uploaded_files''
                                         @ ''/issue_'' @ env_value (ISSUE_NUMBER env)))
                then [Mkdir (path_resolve (cwd env) ''uploaded_files''
                             @ ''/issue_'' @ env_value (ISSUE_NUMBER env))]
                else [])\<rparr>"
    using a nf by (simp add: main_def Let_def)
next
  assume a: "\<not> falsy (GITHUB_OUTPUT env)
       \<and> \<not> falsy (GITHUB_TOKEN env) \<and> \<not> falsy (COMMENT_ID env)
       \<and> \<not> falsy (GITHUB_REPOSITORY env) \<and> all_digits (env_value (ISSUE_NUMBER env))
       \<and> isAbsolute (cwd env) \<and> (\<forall>e. fs_succeeds P e)"
  then have wd: "isAbsolute (cwd env)" and n: "all_digits (env_value (ISSUE_NUMBER env))"
    and out: "\<not> falsy (GITHUB_OUTPUT env)" and works: "\<And>e. fs_succeeds P e"
    by simp_all
  have nf: "\<not> falsy (ISSUE_NUMBER env)"
    using n by (auto simp: falsy_def env_value_def all_digits_def split: option.splits)
  have "outcome (ingest P env fs (env_value (GITHUB_TOKEN env))
         (env_value (ISSUE_NUMBER env)) (env_value (COMMENT_ID env))
         (env_value (COMMENT_BODY env))) = None"
    using out numeric_target(2) [OF wd n] works by (rule ingest_success)
  then show "exit_code (main P env fs) = 0"
    using a nf by (simp add: main_def Let_def exit_code_def)
qed

theorem output_channel_required_witness:
  "falsy (GITHUB_OUTPUT (example_environment ''42'' ''no attachment here'' None))
   \<and> setOutput (example_platform NetworkError)
       (example_environment ''42'' ''no attachment here'' None)
       ''files_processed'' ''false'' = None
   \<and> main (example_platform NetworkError)
       (example_environment ''42'' ''no attachment here'' None) []
      = \<lparr>outcome = Some UncaughtError, events = [Mkdir ''/w/uploaded_files/issue_42'']\<rparr>
   \<and> exit_code (main (example_platform NetworkError)
       (example_environment ''42'' ''no attachment here'' None) []) = 1
   \<and> exit_code (main (example_platform (ok_response None (BodyBytes [1, 2, 3])))
       (example_environment ''42''
          ''see ![img](https://user-images.githubusercontent.com/1/2/3/abc.png)'' None) [])
      = 1
   \<and> exit_code (main (example_platform NetworkError)
       (example_environment ''42'' ''no attachment here'' (Some ''/tmp/out'')) []) = 0"
proof -
  let ?N = "example_environment ''42'' ''no attachment here'' None"
  let ?S = "example_environment ''42'' ''no attachment here'' (Some ''/tmp/out'')"
  let ?U = "example_environment ''42''
          ''see ![img](https://user-images.githubusercontent.com/1/2/3/abc.png)'' None"
  have f: "falsy (GITHUB_OUTPUT ?N)" "falsy (GITHUB_OUTPUT ?U)" "\<not> falsy (GITHUB_OUTPUT ?S)"
    by (simp_all add: example_environment_def falsy_def)
  have pre: "\<not> falsy (GITHUB_TOKEN e) \<and> \<not> falsy (COMMENT_ID e)
       \<and> \<not> falsy (GITHUB_REPOSITORY e) \<and> all_digits (env_value (ISSUE_NUMBER e))
       \<and> isAbsolute (cwd e)" if "e = example_environment ''42'' c out" for e c out
    using that
    by (simp add: example_environment_def falsy_def env_value_def all_digits_def is_digit_def
        isAbsolute_def slash_def)
  have s: "\<forall>e. fs_succeeds (example_platform NetworkError) e"
    by (simp add: example_fs_succeeds)
  have u: "extractFileUrls (env_value (COMMENT_BODY ?N)) = []"
    by (simp add: example_environment_def env_value_def example_no_urls)
  have o: "setOutput (example_platform NetworkError) ?N ''files_processed'' ''false'' = None"
    using output_channel_required
      [of ?N "example_platform NetworkError" "''files_processed''" "''false''" "[]"] f(1)
    by blast
  have m: "main (example_platform NetworkError) ?N []
      = \<lparr>outcome = Some UncaughtError, events = [Mkdir ''/w/uploaded_files/issue_42'']\<rparr>"
    using output_channel_required [of ?N "example_platform NetworkError" _ _ "[]"] f(1)
      pre [of ?N, OF refl] u
    by (simp add: example_environment_def env_value_def example_parts example_fs_succeeds)
  have x1: "exit_code (main (example_platform NetworkError) ?N []) = 1"
    using output_channel_required [of ?N "example_platform NetworkError" _ _ "[]"] f(1)
    by blast
  have x2: "exit_code (main (example_platform (ok_response None (BodyBytes [1, 2, 3]))) ?U [])
      = 1"
    using output_channel_required
      [of ?U "example_platform (ok_response None (BodyBytes [1, 2, 3]))" _ _ "[]"] f(2)
    by blast
  have x3: "exit_code (main (example_platform NetworkError) ?S []) = 0"
    using output_channel_required [of ?S "example_platform NetworkError" _ _ "[]"] f(3)
      pre [of ?S, OF refl] s
    by blast
  show ?thesis by (intro conjI f(1) o m x1 x2 x3)
qed

section \<open>C3: the Sanitizer\<close>

lemma sanitize_nonempty: "sanitizeFilename f \<noteq> []"
  using sanitize_plain [of f] by (simp add: plain_component_def)

lemma sanitize_reserved_prefix:
  assumes r: "toUpperCase (hd (split_on CHR ''.'' (trim_dots_spaces (replace_invalid f))))
              \<in> set reservedNames"
    and e: "length (extname (reserved_checked f)) < MAX_FILENAME_LENGTH"
  shows "hd (sanitizeFilename f) = CHR ''_''"
proof -
  let ?g = "reserved_checked f"
  have g: "?g = CHR ''_'' # trim_dots_spaces (replace_invalid f)"
    using r by (simp add: reserved_checked_def)
  then have ne: "?g \<noteq> []" by simp
  then have tn: "trimmed_name ?g" by (rule reserved_checked_trimmed)
  have s: "sanitizeFilename f = truncated ?g"
    using truncated_not_dots [OF tn] by (simp add: sanitize_stages)
  show ?thesis
  proof (cases "length ?g > MAX_FILENAME_LENGTH")
    case False
    then show ?thesis using s g by (simp add: truncated_short)
  next
    case True
    let ?stem = "basename ?g (extname ?g)"
    have se: "?stem @ extname ?g = ?g" and sne: "?stem \<noteq> []"
      using stem_and_extension [OF tn] by simp_all
    then have "hd ?stem = CHR ''_''" using g by (metis hd_append2 list.sel(1))
    moreover have "take (MAX_FILENAME_LENGTH - length (extname ?g)) ?stem \<noteq> []"
      using e sne by simp
    moreover have "hd (take (MAX_FILENAME_LENGTH - length (extname ?g)) ?stem) = hd ?stem"
      using e sne by (cases ?stem) (simp_all add: take_Cons')
    ultimately show ?thesis using s truncated_long [OF tn True] by simp
  qed
qed

lemma sanitize_keeps_extension:
  assumes "length (reserved_checked f) > MAX_FILENAME_LENGTH"
  shows "endsWith (sanitizeFilename f) (extname (reserved_checked f))"
proof -
  have ne: "reserved_checked f \<noteq> []" using assms by auto
  then have tn: "trimmed_name (reserved_checked f)" by (rule reserved_checked_trimmed)
  have "sanitizeFilename f = truncated (reserved_checked f)"
    using truncated_not_dots [OF tn] by (simp add: sanitize_stages)
  then show ?thesis
    using truncated_long [OF tn assms] by (simp add: endsWith_suffix suffix_def)
qed

lemma sanitize_CON: "sanitizeFilename ''CON.txt'' = ''_CON.txt''"
  by code_simp

text \<open>
  C3. The Sanitizer keeps its promises on every name whose extension is shorter than
  200 characters: \<open>sanitize_length\<close>, \<open>sanitize_valid\<close>, \<open>sanitize_reserved_prefix\<close>,
  \<open>sanitize_keeps_extension\<close> and \<open>sanitize_nonempty\<close>. The truncation keeps the whole
  extension and cuts the stem to \<^verbatim>\<open>200 - ext.length\<close> characters; when the extension is
  longer than 200 characters that number is negative, \<^verbatim>\<open>substring\<close> takes nothing, and
  the result is the extension alone: longer than 200 characters, and without the
  underscore that was put in front of a reserved name.
\<close>

theorem sanitizer_long_extension:
  "length (sanitizeFilename (''a.'' @ replicate 250 CHR ''b'')) = 251
   \<and> sanitizeFilename (''CON.'' @ replicate 250 CHR ''b'') = CHR ''.'' # replicate 250 CHR ''b''
   \<and> length (getFilenameFromUrl
        (''https://github.com/user-attachments/files/1/a.'' @ replicate 250 CHR ''b'')) = 251"
  by code_simp

section \<open>C9: the Filename Deriver\<close>

text \<open>
  The words of the specification: the final segment of a URL is the text after its
  last slash; \<^verbatim>\<open>.bin\<close> is appended to a segment without a dot; the result is sanitized.
\<close>

definition final_segment :: "string \<Rightarrow> string" where
  "final_segment url = rev (takeWhile (\<lambda>c. c \<noteq> CHR ''/'') (rev url))"

definition with_bin :: "string \<Rightarrow> string" where
  "with_bin seg = (if CHR ''.'' \<in> set seg then seg else seg @ ''.bin'')"

definition deriver_as_specified :: "string \<Rightarrow> string" where
  "deriver_as_specified url = sanitizeFilename (with_bin (final_segment url))"

lemma includes_char: "str_includes s [c] = (c \<in> set s)"
proof (induction s)
  case Nil
  show ?case by simp
next
  case (Cons x xs)
  have "startsWith (x # xs) [c] = (x = c)" by simp
  then show ?case using Cons by auto
qed

lemma deriver_unfolded:
  "getFilenameFromUrl url
     = sanitizeFilename (with_bin (if final_segment url = [] then ''file'' else final_segment url))"
  by (simp add: getFilenameFromUrl_def Let_def last_split_on slash_def final_segment_def
      with_bin_def includes_char)

theorem deriver_differs_on_empty_segment:
  "getFilenameFromUrl ''https://github.com/'' = ''file.bin''
   \<and> deriver_as_specified ''https://github.com/'' = ''bin''"
  by code_simp

text \<open>
  C9. The Filename Deriver is a function of the URL alone, and of no state: its
  result is the sanitized form of the text after the last slash of the URL, that
  text being replaced by the placeholder \<^verbatim>\<open>file\<close> when it is empty, and \<^verbatim>\<open>.bin\<close> being
  appended when it has no dot. Two URLs with the same final segment get the same file
  name, and for a URL whose final segment is not empty the result is what the
  specification describes.
\<close>

theorem deriver_contract:
  "getFilenameFromUrl url
     = sanitizeFilename (with_bin (if final_segment url = [] then ''file'' else final_segment url))
   \<and> (final_segment url \<noteq> [] \<longrightarrow> getFilenameFromUrl url = deriver_as_specified url)
   \<and> (final_segment url = final_segment url' \<longrightarrow>
        getFilenameFromUrl url = getFilenameFromUrl url')"
  by (simp add: deriver_unfolded deriver_as_specified_def)

theorem deriver_contract_witness:
  "final_segment ''https://github.com/o/r/assets/1/photo'' \<noteq> []
   \<and> final_segment ''https://github.com/o/r/assets/1/photo''
       = final_segment ''https://github.com/user-attachments/files/2/photo''
   \<and> getFilenameFromUrl ''https://github.com/o/r/assets/1/photo''
       = deriver_as_specified ''https://github.com/o/r/assets/1/photo''
   \<and> getFilenameFromUrl ''https://github.com/o/r/assets/1/photo''
       = getFilenameFromUrl ''https://github.com/user-attachments/files/2/photo''
   \<and> getFilenameFromUrl ''https://github.com/o/r/assets/1/photo'' = ''photo.bin''"
proof -
  have s: "final_segment ''https://github.com/o/r/assets/1/photo'' = ''photo''"
    "final_segment ''https://github.com/user-attachments/files/2/photo'' = ''photo''"
    by code_simp+
  have v: "sanitizeFilename (with_bin ''photo'') = ''photo.bin''" by code_simp
  note t = deriver_contract [of "''https://github.com/o/r/assets/1/photo''"
      "''https://github.com/user-attachments/files/2/photo''"]
  have a: "final_segment ''https://github.com/o/r/assets/1/photo'' \<noteq> []" by (simp add: s)
  have b: "final_segment ''https://github.com/o/r/assets/1/photo''
       = final_segment ''https://github.com/user-attachments/files/2/photo''" by (simp add: s)
  have c: "getFilenameFromUrl ''https://github.com/o/r/assets/1/photo''
       = deriver_as_specified ''https://github.com/o/r/assets/1/photo''"
    using t a by blast
  have d: "getFilenameFromUrl ''https://github.com/o/r/assets/1/photo''
       = getFilenameFromUrl ''https://github.com/user-attachments/files/2/photo''"
    using t b by blast
  have e: "getFilenameFromUrl ''https://github.com/o/r/assets/1/photo'' = ''photo.bin''"
    using t by (simp only: s) (simp add: v)
  show ?thesis by (intro conjI a b c d e)
qed

section \<open>C4: the URL Extractor\<close>










declare scan_all.simps [simp del]















end
